theory Spec2Isabelle
  imports Main "HOL-Library.Multiset" "HOL-Library.Char_ord" "HOL-Library.List_Lexorder" "HOL-Library.AList"
begin

section \<open>Data model (types.go)\<close>

text \<open>
  Go's \<open>time.Time\<close> values are compared with \<open>Before\<close> and \<open>After\<close> only; an instant is
  modelled as an integer number of clock ticks. A Go \<open>error\<close> value is modelled by its
  message, \<open>nil\<close> by \<open>None\<close>. Strings are byte sequences, as in Go. The fields of
  \<open>ProcSummary\<close> carry the prefix \<open>sum\<close>, since their names are those of \<open>ProcLog\<close>.
\<close>

type_synonym time = int

record ProcLog =
  SolID :: string
  Procedure :: string
  StartTime :: time
  EndTime :: time
  ExecutionTime :: int
  Status :: string
  ErrorDetails :: string

record ProcSummary =
  sumProcedure :: string
  sumStartTime :: time
  sumEndTime :: time
  sumStatus :: string

type_synonym summary = "string \<rightharpoonup> ProcSummary"

section \<open>The worker body of runProceduresForSol (runProc.go)\<close>

text \<open>Lines 30-42: the log record built from the call's timing and its error.\<close>

definition mkProcLog :: "string \<Rightarrow> string \<Rightarrow> time \<Rightarrow> time \<Rightarrow> string option \<Rightarrow> ProcLog" where
  "mkProcLog solID proc start end' err =
     \<lparr> SolID = solID, Procedure = proc, StartTime = start, EndTime = end',
       ExecutionTime = end' - start,
       Status = (case err of Some e \<Rightarrow> ''FAIL'' | None \<Rightarrow> ''SUCCESS''),
       ErrorDetails = (case err of Some e \<Rightarrow> e | None \<Rightarrow> '''') \<rparr>"

text \<open>Lines 45-67: the section under the mutex, on the shared summary map.\<close>

definition updateSummary :: "summary \<Rightarrow> string \<Rightarrow> time \<Rightarrow> time \<Rightarrow> string \<Rightarrow> summary" where
  "updateSummary summ proc start end' status =
     (case summ proc of
        None \<Rightarrow>
          summ(proc \<mapsto> \<lparr> sumProcedure = proc, sumStartTime = start, sumEndTime = end',
                          sumStatus = status \<rparr>)
      | Some s \<Rightarrow>
          (let s1 = (if start < sumStartTime s then s\<lparr>sumStartTime := start\<rparr> else s);
               s2 = (if end' > sumEndTime s1 then s1\<lparr>sumEndTime := end'\<rparr> else s1);
               s3 = (if sumStatus s2 \<noteq> ''FAIL'' \<and> status = ''FAIL''
                     then s2\<lparr>sumStatus := ''FAIL''\<rparr> else s2)
           in summ(proc \<mapsto> s3)))"

text \<open>One update as a tuple (operation, start, end, status), and a sequence of them.\<close>

fun applyUpdate :: "string \<times> time \<times> time \<times> string \<Rightarrow> summary \<Rightarrow> summary" where
  "applyUpdate (proc, start, end', status) summ = updateSummary summ proc start end' status"

definition applyUpdates :: "(string \<times> time \<times> time \<times> string) list \<Rightarrow> summary \<Rightarrow> summary" where
  "applyUpdates us summ = fold applyUpdate us summ"

definition validStatus :: "string \<times> time \<times> time \<times> string \<Rightarrow> bool" where
  "validStatus u = (snd (snd (snd u)) = ''SUCCESS'' \<or> snd (snd (snd u)) = ''FAIL'')"

text \<open>The entry of an operation exists and its status is \<open>FAIL\<close>.\<close>

definition failedIn :: "summary \<Rightarrow> string \<Rightarrow> bool" where
  "failedIn summ p = (case summ p of None \<Rightarrow> False | Some a \<Rightarrow> sumStatus a = ''FAIL'')"

text \<open>
  The entry after further updates for its own operation, as the \<open>else\<close> branch computes it.
\<close>

fun aggregate :: "ProcSummary \<Rightarrow> (time \<times> time \<times> string) list \<Rightarrow> ProcSummary" where
  "aggregate a [] = a"
| "aggregate a ((s, e, st) # ts) =
     aggregate \<lparr> sumProcedure = sumProcedure a, sumStartTime = min s (sumStartTime a),
                 sumEndTime = max e (sumEndTime a),
                 sumStatus = (if sumStatus a \<noteq> ''FAIL'' \<and> st = ''FAIL'' then ''FAIL'' else sumStatus a) \<rparr> ts"

section \<open>Configuration and column layout\<close>

text \<open>
  Modelled from the spec: the declarations of the types \<open>ExtractionConfig\<close> and
  \<open>ColumnConfig\<close> are not among the source files. \<open>ColumnConfig\<close> is the entry of the
  spec's column layout (name, width, alignment); the records hold the fields the code
  reads (\<open>cfg.Format\<close>, \<open>cfg.Delimiter\<close>, \<open>col.Length\<close>, ...), with the types their uses
  fix: \<open>Length\<close> is the \<open>int\<close> that \<open>strconv.Atoi\<close> returns.
\<close>

record ExtractionConfig =
  PackageName :: string
  Procedures :: "string list"
  SpoolOutputPath :: string
  TemplatePath :: string
  Format :: string
  Delimiter :: string
  RunInsertionParallel :: bool
  RunExtractionParallel :: bool

record ColumnConfig =
  Name :: string
  Length :: int
  Align :: string

section \<open>Library functions the formatter calls\<close>

text \<open>
  \<open>utf8.RuneCountInString\<close>: the number of runes of a byte string, where a byte that
  starts no well-formed UTF-8 sequence counts as one rune of width one. \<open>runeSize\<close> is
  the width of the sequence at the head of the string (the table \<open>first\<close> and the
  \<open>acceptRanges\<close> of package \<open>unicode/utf8\<close>).
\<close>

definition byteIn :: "string \<Rightarrow> nat \<Rightarrow> nat \<Rightarrow> nat \<Rightarrow> bool" where
  "byteIn s k lo hi = (k < length s \<and> lo \<le> (of_char (s ! k) :: nat) \<and> (of_char (s ! k) :: nat) \<le> hi)"

definition runeSize :: "char \<Rightarrow> string \<Rightarrow> nat" where
  "runeSize c cs =
     (let b = (of_char c :: nat) in
      if b < 0x80 then 1
      else if b < 0xC2 then 1
      else if b \<le> 0xDF then (if byteIn cs 0 0x80 0xBF then 2 else 1)
      else if b \<le> 0xEF then
        (if 2 \<le> length cs
            \<and> byteIn cs 0 (if b = 0xE0 then 0xA0 else 0x80) (if b = 0xED then 0x9F else 0xBF)
            \<and> byteIn cs 1 0x80 0xBF
         then 3 else 1)
      else if b \<le> 0xF4 then
        (if 3 \<le> length cs
            \<and> byteIn cs 0 (if b = 0xF0 then 0x90 else 0x80) (if b = 0xF4 then 0x8F else 0xBF)
            \<and> byteIn cs 1 0x80 0xBF \<and> byteIn cs 2 0x80 0xBF
         then 4 else 1)
      else 1)"

text \<open>The counting loop; the first argument is the number of bytes still to skip.\<close>

fun runeCountFrom :: "nat \<Rightarrow> string \<Rightarrow> nat" where
  "runeCountFrom k [] = 0"
| "runeCountFrom (Suc k) (c # cs) = runeCountFrom k cs"
| "runeCountFrom 0 (c # cs) = Suc (runeCountFrom (runeSize c cs - 1) cs)"

definition RuneCountInString :: "string \<Rightarrow> nat" where
  "RuneCountInString s = runeCountFrom 0 s"

text \<open>
  \<open>fmt.Sprintf("%*s", w, s)\<close> and \<open>fmt.Sprintf("%-*s", w, s)\<close> (\<open>fminus\<close> is the flag \<open>-\<close>). The
  width is counted in runes; a width argument beyond a million in absolute value is
  refused (\<open>tooLarge\<close>): the output is \<open>%!(BADWIDTH)\<close> followed by the unpadded string. A
  negative width means left-justify.
\<close>

definition writePadding :: "int \<Rightarrow> string" where
  "writePadding n = replicate (nat n) (CHR '' '')"

definition padString :: "bool \<Rightarrow> int \<Rightarrow> string \<Rightarrow> string" where
  "padString fminus wid s =
     (if wid = 0 then s
      else (let width = wid - int (RuneCountInString s)
            in if \<not> fminus then writePadding width @ s else s @ writePadding width))"

definition sprintfStarS :: "bool \<Rightarrow> int \<Rightarrow> string \<Rightarrow> string" where
  "sprintfStarS fminus w s =
     (if w > 1000000 \<or> w < - 1000000 then ''%!(BADWIDTH)'' @ s
      else if w < 0 then padString True (- w) s
      else padString fminus w s)"

text \<open>The decimal digits of a number, as the verb \<open>%d\<close> prints it.\<close>

fun showNat :: "nat \<Rightarrow> string" where
  "showNat n =
     (if n < 10 then [char_of (48 + n)] else showNat (n div 10) @ [char_of (48 + n mod 10)])"

declare showNat.simps [simp del]

text \<open>\<open>strings.ReplaceAll\<close> with one-byte old and new strings, and \<open>strings.Join\<close>.\<close>

definition replaceByte :: "char \<Rightarrow> char \<Rightarrow> string \<Rightarrow> string" where
  "replaceByte old new s = map (\<lambda>c. if c = old then new else c) s"

fun joinStrings :: "string list \<Rightarrow> string \<Rightarrow> string" where
  "joinStrings [] sep = []"
| "joinStrings [a] sep = a"
| "joinStrings (a # b # rest) sep = a @ sep @ joinStrings (b # rest) sep"

section \<open>sanitize and formatRow\<close>

definition sanitize :: "string \<Rightarrow> string" where
  "sanitize s = replaceByte (CHR 0x0D) (CHR '' '') (replaceByte (CHR 0x0A) (CHR '' '') s)"

text \<open>
  A run-time panic of the Go code is a value: the index \<open>values[i]\<close> out of range, and
  the slice \<open>val[:col.Length]\<close> with a negative bound.
\<close>

datatype panic = IndexOutOfRange | SliceBoundsOutOfRange

text \<open>Lines 244-246: \<open>if len(val) > col.Length { val = val[:col.Length] }\<close>.\<close>

definition truncateTo :: "int \<Rightarrow> string \<Rightarrow> panic + string" where
  "truncateTo n val =
     (if int (length val) > n
      then (if n < 0 then Inl SliceBoundsOutOfRange else Inr (take (nat n) val))
      else Inr val)"

text \<open>Lines 247-251: the field as it is appended to the builder.\<close>

definition padField :: "ColumnConfig \<Rightarrow> string \<Rightarrow> string" where
  "padField col val =
     (if Align col = ''right'' then sprintfStarS False (Length col) val
      else sprintfStarS True (Length col) val)"

text \<open>Lines 242-253: the loop over the columns, with the index and the builder.\<close>

fun fixedLoop :: "ColumnConfig list \<Rightarrow> string list \<Rightarrow> nat \<Rightarrow> string \<Rightarrow> panic + string" where
  "fixedLoop [] values i out = Inr out"
| "fixedLoop (col # cols) values i out =
     (if length values \<le> i then Inl IndexOutOfRange
      else (case truncateTo (Length col) (sanitize (values ! i)) of
              Inl e \<Rightarrow> Inl e
            | Inr val \<Rightarrow> fixedLoop cols values (Suc i) (out @ padField col val)))"

definition formatRow :: "ExtractionConfig \<Rightarrow> ColumnConfig list \<Rightarrow> string list \<Rightarrow> panic + string" where
  "formatRow cfg cols values =
     (if Format cfg = ''delimited'' then Inr (joinStrings (map sanitize values) (Delimiter cfg))
      else if Format cfg = ''fixed'' then fixedLoop cols values 0 []
      else Inr [])"

section \<open>Splitting a line on the delimiter\<close>

text \<open>
  \<open>strings.HasPrefix\<close>, \<open>strings.HasSuffix\<close>, \<open>strings.Index\<close> and \<open>strings.Split\<close>. With a
  non-empty separator, \<open>Split\<close> cuts at the first occurrence of the separator and goes on
  behind it; with the empty separator it cuts the string into its UTF-8 sequences
  (\<open>explode\<close>).
\<close>

definition HasPrefix :: "string \<Rightarrow> string \<Rightarrow> bool" where
  "HasPrefix s p = (length p \<le> length s \<and> take (length p) s = p)"

definition HasSuffix :: "string \<Rightarrow> string \<Rightarrow> bool" where
  "HasSuffix s suf = (length suf \<le> length s \<and> drop (length s - length suf) s = suf)"

fun Index :: "string \<Rightarrow> string \<Rightarrow> nat option" where
  "Index [] sep = (if sep = [] then Some 0 else None)"
| "Index (c # cs) sep =
     (if HasPrefix (c # cs) sep then Some 0 else map_option Suc (Index cs sep))"

text \<open>\<open>strings.Contains\<close>.\<close>

definition Contains :: "string \<Rightarrow> string \<Rightarrow> bool" where
  "Contains s substr = (Index s substr \<noteq> None)"

lemma Index_bound: "Index s sep = Some m \<Longrightarrow> m + length sep \<le> length s"
proof (induction s arbitrary: m)
  case Nil
  then show ?case by (simp split: if_splits)
next
  case (Cons c cs)
  show ?case
  proof (cases "HasPrefix (c # cs) sep")
    case True
    with Cons.prems show ?thesis by (simp add: HasPrefix_def)
  next
    case False
    with Cons.prems obtain k where "Index cs sep = Some k" "m = Suc k" by auto
    with Cons.IH [of k] show ?thesis by simp
  qed
qed

lemma runeSize_pos: "0 < runeSize c cs"
  by (simp add: runeSize_def Let_def)

function explode :: "string \<Rightarrow> string list" where
  "explode [] = []"
| "explode (c # cs) = take (runeSize c cs) (c # cs) # explode (drop (runeSize c cs) (c # cs))"
  by pat_completeness auto
termination
proof (relation "measure length")
  show "wf (measure length)" by simp
next
  fix c :: char and cs :: string
  have "0 < runeSize c cs" by (rule runeSize_pos)
  then show "(drop (runeSize c cs) (c # cs), c # cs) \<in> measure length" by simp
qed

function Split :: "string \<Rightarrow> string \<Rightarrow> string list" where
  "Split s sep =
     (if sep = [] then explode s
      else (case Index s sep of
              None \<Rightarrow> [s]
            | Some m \<Rightarrow> take m s # Split (drop (m + length sep) s) sep))"
  by pat_completeness auto
termination
proof (relation "measure (\<lambda>(s, sep). length s)")
  show "wf (measure (\<lambda>(s, sep). length s))" by simp
next
  fix s sep :: string and m :: nat
  assume "sep \<noteq> []" and "Index s sep = Some m"
  then have "m + length sep \<le> length s" and "0 < length sep"
    by (simp_all add: Index_bound)
  then have "length s - (m + length sep) < length s" by arith
  then show "((drop (m + length sep) s, sep), (s, sep)) \<in> measure (\<lambda>(s, sep). length s)"
    by simp
qed

declare Split.simps [simp del]

section \<open>The field as the specification words it\<close>

text \<open>
  Written from the specification's sentence on fixed-width mode, to compare \<open>formatRow\<close>
  with: the sanitized value, cut to the column's width if longer, then padded with spaces
  to exactly that width, on the right of the value (left-justified) or on its left
  (right-justified). Lengths are counted in bytes.
\<close>

definition specField :: "ColumnConfig \<Rightarrow> string \<Rightarrow> string" where
  "specField col v =
     (let w = nat (Length col); t = take w (sanitize v); pad = replicate (w - length t) (CHR '' '')
      in if Align col = ''right'' then pad @ t else t @ pad)"

definition asciiOnly :: "string \<Rightarrow> bool" where
  "asciiOnly s = list_all (\<lambda>c. (of_char c :: nat) < 0x80) s"

section \<open>extractData\<close>

text \<open>
  What the function receives from its collaborators is an input of the model: the result
  of \<open>readColumnsFromCSV\<close>, the result of \<open>db.QueryContext\<close> (an error, or the rows the
  cursor yields, each with the outcome of its \<open>rows.Scan\<close>), the error \<open>rows.Err()\<close> would
  report once \<open>rows.Next()\<close> has returned false (the function never asks for it), the
  error of \<open>os.Create\<close>, and the error of the \<open>k\<close>-th \<open>f.WriteString\<close>. A failed write is
  taken to leave the file as it was.
\<close>

datatype scanned = ScanError string | Row "string option list"

record extractEnv =
  layoutResult :: "string + ColumnConfig list"
  queryResult :: "string + scanned list"
  iterationError :: "string option"
  createError :: "string option"
  writeError :: "nat \<Rightarrow> string option"

text \<open>Lines 123-130: a NULL column becomes the empty string.\<close>

definition nullString :: "string option \<Rightarrow> string" where
  "nullString v = (case v of Some s \<Rightarrow> s | None \<Rightarrow> [])"

text \<open>
  Lines 114-132: the loop over the rows, with the number of the row and the contents of
  the spool file so far. \<open>Scan\<close> into \<open>len(cols)\<close> destinations fails on a row of another
  arity, with the message of \<open>database/sql\<close>. The result of \<open>f.WriteString\<close> is dropped, as in the source.
\<close>

fun writeRows :: "ExtractionConfig \<Rightarrow> ColumnConfig list \<Rightarrow> (nat \<Rightarrow> string option) \<Rightarrow> nat \<Rightarrow>
    scanned list \<Rightarrow> string \<Rightarrow> panic + (string option \<times> string)" where
  "writeRows cfg cols werr k [] spool = Inr (None, spool)"
| "writeRows cfg cols werr k (ScanError e # rest) spool = Inr (Some e, spool)"
| "writeRows cfg cols werr k (Row vs # rest) spool =
     (if length vs \<noteq> length cols
      then Inr (Some (''sql: expected '' @ showNat (length vs) @ '' destination arguments in Scan, not ''
                        @ showNat (length cols)), spool)
      else (case formatRow cfg cols (map nullString vs) of
              Inl p \<Rightarrow> Inl p
            | Inr line \<Rightarrow>
                writeRows cfg cols werr (Suc k) rest
                  (case werr k of None \<Rightarrow> spool @ line @ [CHR 0x0A] | Some e \<Rightarrow> spool)))"

text \<open>
  The result is the returned error (\<open>None\<close> for \<open>nil\<close>) and the contents of the spool file,
  if it was created.
\<close>

definition extractData :: "ExtractionConfig \<Rightarrow> extractEnv \<Rightarrow> panic + (string option \<times> string option)" where
  "extractData cfg env =
     (case layoutResult env of
        Inl e \<Rightarrow> Inr (Some e, None)
      | Inr cols \<Rightarrow>
          (case queryResult env of
             Inl e \<Rightarrow> Inr (Some e, None)
           | Inr rows \<Rightarrow>
               (case createError env of
                  Some e \<Rightarrow> Inr (Some e, None)
                | None \<Rightarrow>
                    (case writeRows cfg cols (writeError env) 0 rows [] of
                       Inl p \<Rightarrow> Inl p
                     | Inr (err, spool) \<Rightarrow> Inr (err, Some spool)))))"

definition rowFits :: "ColumnConfig list \<Rightarrow> scanned \<Rightarrow> bool" where
  "rowFits cols r = (case r of Row vs \<Rightarrow> length vs = length cols | ScanError e \<Rightarrow> False)"

section \<open>The spool directory and consolidateSpoolFiles\<close>

text \<open>
  The spool output directory is a list of entries with distinct names, each a regular file
  with its contents or a subdirectory; a path \<open>filepath.Join(SpoolOutputPath, name)\<close> is
  modelled by \<open>name\<close>. The failures of the file system are inputs: of \<open>os.ReadDir\<close>, of
  \<open>os.Create\<close>, \<open>os.Open\<close> and \<open>os.Remove\<close> on a name, of \<open>io.Copy\<close> from a file (after
  the given number of bytes has reached the output) and of the write of the newline that
  follows a file. The byte count \<open>totalBytes\<close> and the log lines are left out.
\<close>

datatype node = File string | Dir

type_synonym dirState = "(string \<times> node) list"

record ioFaults =
  readDirError :: "string option"
  createFails :: "string \<Rightarrow> bool"
  openFails :: "string \<Rightarrow> bool"
  copyFails :: "string \<Rightarrow> nat option"
  removeFails :: "string \<Rightarrow> bool"
  newlineFails :: "string \<Rightarrow> bool"

text \<open>\<open>os.ReadDir\<close> returns the entries sorted by file name.\<close>

definition ReadDir :: "dirState \<Rightarrow> (string \<times> node) list" where
  "ReadDir d = sort_key fst d"

text \<open>Line 35: the test that puts a file on an operation's list.\<close>

definition isSpoolFor :: "string \<Rightarrow> string \<Rightarrow> bool" where
  "isSpoolFor proc name =
     (HasPrefix name (proc @ ''_'') \<and> (HasSuffix name ''.txt'' \<or> HasSuffix name ''.spool''))"

text \<open>
  Lines 28-39: the map from operation to its list of files; an operation without a file has
  no key, which the empty list stands for.
\<close>

fun addToProcs :: "string \<Rightarrow> string list \<Rightarrow> (string \<Rightarrow> string list) \<Rightarrow> (string \<Rightarrow> string list)" where
  "addToProcs name [] m = m"
| "addToProcs name (proc # procs) m =
     addToProcs name procs (if isSpoolFor proc name then m(proc := m proc @ [name]) else m)"

fun groupFiles :: "(string \<times> node) list \<Rightarrow> string list \<Rightarrow> (string \<Rightarrow> string list) \<Rightarrow> (string \<Rightarrow> string list)" where
  "groupFiles [] procs m = m"
| "groupFiles ((name, Dir) # entries) procs m = groupFiles entries procs m"
| "groupFiles ((name, File c) # entries) procs m = groupFiles entries procs (addToProcs name procs m)"

definition spoolFilesMap :: "ExtractionConfig \<Rightarrow> (string \<times> node) list \<Rightarrow> string \<Rightarrow> string list" where
  "spoolFilesMap cfg entries = groupFiles entries (Procedures cfg) (\<lambda>proc. [])"

text \<open>A write through the open output file appends to what it holds.\<close>

definition writeTo :: "string \<Rightarrow> string \<Rightarrow> dirState \<Rightarrow> dirState" where
  "writeTo name bytes d =
     (case map_of d name of
        Some (File c) \<Rightarrow> AList.update name (File (c @ bytes)) d
      | _ \<Rightarrow> AList.update name (File bytes) d)"

text \<open>
  Lines 50-79: the loop over the files of one operation, with \<open>n = len(files)\<close> and the
  index \<open>i\<close>. A file that cannot be opened or copied is skipped (\<open>continue\<close>), after the
  bytes copied so far have reached the output.
\<close>

fun copyFiles :: "ioFaults \<Rightarrow> string \<Rightarrow> nat \<Rightarrow> nat \<Rightarrow> string list \<Rightarrow> dirState \<Rightarrow> dirState" where
  "copyFiles io out n i [] d = d"
| "copyFiles io out n i (fpath # rest) d =
     (case (if openFails io fpath then None else map_of d fpath) of
        None \<Rightarrow> copyFiles io out n (Suc i) rest d
      | Some Dir \<Rightarrow> copyFiles io out n (Suc i) rest d
      | Some (File c) \<Rightarrow>
          (case copyFails io fpath of
             Some k \<Rightarrow> copyFiles io out n (Suc i) rest (writeTo out (take k c) d)
           | None \<Rightarrow>
               (let d1 = writeTo out c d;
                    d2 = (if removeFails io fpath then d1 else AList.delete fpath d1);
                    d3 = (if i < n - 1 \<and> \<not> newlineFails io fpath then writeTo out [CHR 0x0A] d2 else d2)
                in copyFiles io out n (Suc i) rest d3)))"

text \<open>
  Lines 42-47 and 81-83: \<open>os.Create\<close> on the final name truncates the file that is there;
  when it fails the operation is skipped.
\<close>

definition consolidateProc :: "ioFaults \<Rightarrow> string \<Rightarrow> string list \<Rightarrow> dirState \<Rightarrow> dirState" where
  "consolidateProc io proc files d =
     (let outFile = proc @ ''.txt''
      in if createFails io outFile \<or> map_of d outFile = Some Dir then d
         else copyFiles io outFile (length files) 0 files (AList.update outFile (File []) d))"

text \<open>
  The whole function. Go ranges over the map in an order of its own choosing: \<open>order\<close> is
  that order, an enumeration of the keys (\<open>mapKeys\<close>).
\<close>

definition consolidateSpoolFiles :: "ExtractionConfig \<Rightarrow> ioFaults \<Rightarrow> string list \<Rightarrow> dirState \<Rightarrow> string option \<times> dirState" where
  "consolidateSpoolFiles cfg io order d =
     (case readDirError io of
        Some e \<Rightarrow> (Some (''failed to read spool output directory: '' @ e), d)
      | None \<Rightarrow>
          (let spoolFiles = spoolFilesMap cfg (ReadDir d)
           in (None, fold (\<lambda>proc. consolidateProc io proc (spoolFiles proc)) order d)))"


text \<open>The file system without failures.\<close>

definition noFaults :: ioFaults where
  "noFaults = \<lparr> readDirError = None, createFails = (\<lambda>f. False), openFails = (\<lambda>f. False),
      copyFails = (\<lambda>f. None), removeFails = (\<lambda>f. False), newlineFails = (\<lambda>f. False) \<rparr>"

text \<open>The name \<open>extractData\<close> gives the spool file (part_003 line 107).\<close>

definition spoolName :: "string \<Rightarrow> string \<Rightarrow> string" where
  "spoolName procName solID = procName @ ''_'' @ solID @ ''.spool''"

text \<open>Notions for the statements: contents, the names an operation's turn may touch.\<close>

definition contentOf :: "dirState \<Rightarrow> string \<Rightarrow> string" where
  "contentOf d name = (case map_of d name of Some (File c) \<Rightarrow> c | _ \<Rightarrow> [])"





section \<open>Example inputs\<close>

definition exampleConfig :: "string \<Rightarrow> string \<Rightarrow> ExtractionConfig" where
  "exampleConfig fmt delim =
     \<lparr> PackageName = ''PKG'', Procedures = [''P1'', ''P2''], SpoolOutputPath = ''out'',
       TemplatePath = ''templates'', Format = fmt, Delimiter = delim,
       RunInsertionParallel = True, RunExtractionParallel = True \<rparr>"

definition exampleLayout :: "ColumnConfig list" where
  "exampleLayout = [\<lparr> Name = ''ID'', Length = 5, Align = ''left'' \<rparr>,
                    \<lparr> Name = ''AMT'', Length = 6, Align = ''right'' \<rparr>]"

definition exampleEnv :: "scanned list \<Rightarrow> (nat \<Rightarrow> string option) \<Rightarrow> extractEnv" where
  "exampleEnv rows werr =
     \<lparr> layoutResult = Inr exampleLayout, queryResult = Inr rows, iterationError = None,
       createError = None, writeError = werr \<rparr>"

definition exampleDir :: dirState where
  "exampleDir =
     [(''P1.txt'', File ''old''), (spoolName ''P1'' ''S2'', File ''b''), (spoolName ''P1'' ''S1'', File ''a''),
      (spoolName ''P2'' ''S1'', File ''c''), (''archive'', Dir)]"

section \<open>The run: main and runProceduresForSol as a transition system\<close>

text \<open>
  The goroutines of a run, at the grain of their synchronisations. A worker of the pool of
  one SOL is blocked on \<open>procCh\<close> (\<open>Waiting\<close>), holds a procedure it has received
  (\<open>Got\<close>), has sent its record on the log channel and is about to enter the section
  under the mutex (\<open>Logged\<close>), or has left its loop (\<open>Exited\<close>). The call of one SOL holds
  the procedures the feeding loop has still to send, whether \<open>procCh\<close> is closed, and its
  \<open>numWorkers\<close> workers. The system holds the SOLs the loop of \<open>main\<close> has still to
  start, the calls in flight (each holds a slot of \<open>sem\<close>), everything sent on
  \<open>procLogCh\<close> so far, the summary map and the progress counter.
\<close>

datatype worker = Waiting | Got string | Logged ProcLog | Exited

record solRun =
  runSol :: string
  toFeed :: "string list"
  procChClosed :: bool
  workers :: "worker list"

record system =
  pendingSols :: "string list"
  running :: "solRun list"
  procLogCh :: "ProcLog list"
  procSummary :: summary
  completed :: nat

text \<open>
  One step of one goroutine. \<open>StartSol\<close>: \<open>main\<close> takes a slot of \<open>sem\<close> and starts the
  next SOL. \<open>Feed j k\<close>: in call \<open>j\<close> the unbuffered \<open>procCh\<close> hands the next procedure to
  the waiting worker \<open>k\<close>. \<open>CallAndLog\<close>: the worker's \<open>callProcedure\<close> returns with the
  given times and error, and the record is sent on the log channel. \<open>UpdateSummary\<close>: the
  section under the mutex. \<open>CloseProcCh\<close>: the feeding loop is over and the channel is
  closed. \<open>ExitWorker\<close>: a waiting worker sees the closed channel. \<open>ReturnSol\<close>:
  \<open>wg.Wait()\<close> returns, the call ends and frees its slot.
\<close>

datatype action =
    StartSol
  | Feed nat nat
  | CallAndLog nat nat time time "string option"
  | UpdateSummary nat nat
  | CloseProcCh nat
  | ExitWorker nat nat
  | ReturnSol nat

definition numWorkers :: nat where
  "numWorkers = 4"

definition newRun :: "ExtractionConfig \<Rightarrow> string \<Rightarrow> solRun" where
  "newRun procConfig solID =
     \<lparr> runSol = solID, toFeed = Procedures procConfig, procChClosed = False,
       workers = replicate numWorkers Waiting \<rparr>"

definition initial :: "string list \<Rightarrow> system" where
  "initial sols =
     \<lparr> pendingSols = sols, running = [], procLogCh = [], procSummary = Map.empty, completed = 0 \<rparr>"

definition setWorker :: "system \<Rightarrow> nat \<Rightarrow> nat \<Rightarrow> worker \<Rightarrow> system" where
  "setWorker s j k w =
     s\<lparr> running := (running s)[j := (running s ! j)\<lparr> workers := (workers (running s ! j))[k := w] \<rparr>] \<rparr>"

definition workerAt :: "system \<Rightarrow> nat \<Rightarrow> nat \<Rightarrow> worker option" where
  "workerAt s j k =
     (if j < length (running s) \<and> k < length (workers (running s ! j))
      then Some (workers (running s ! j) ! k) else None)"

text \<open>The step, \<open>None\<close> when the goroutine cannot take it in this state.\<close>

fun applyAction :: "ExtractionConfig \<Rightarrow> nat \<Rightarrow> action \<Rightarrow> system \<Rightarrow> system option" where
  "applyAction cfg conc StartSol s =
     (case pendingSols s of
        sol # rest \<Rightarrow>
          (if length (running s) < conc
           then Some (s\<lparr> pendingSols := rest, running := running s @ [newRun cfg sol] \<rparr>)
           else None)
      | [] \<Rightarrow> None)"
| "applyAction cfg conc (Feed j k) s =
     (case workerAt s j k of
        Some Waiting \<Rightarrow>
          (case toFeed (running s ! j) of
             proc # rest \<Rightarrow>
               Some (setWorker (s\<lparr> running := (running s)[j := (running s ! j)\<lparr> toFeed := rest \<rparr>] \<rparr>)
                       j k (Got proc))
           | [] \<Rightarrow> None)
      | _ \<Rightarrow> None)"
| "applyAction cfg conc (CallAndLog j k start end' err) s =
     (case workerAt s j k of
        Some (Got proc) \<Rightarrow>
          (let plog = mkProcLog (runSol (running s ! j)) proc start end' err
           in Some (setWorker (s\<lparr> procLogCh := procLogCh s @ [plog] \<rparr>) j k (Logged plog)))
      | _ \<Rightarrow> None)"
| "applyAction cfg conc (UpdateSummary j k) s =
     (case workerAt s j k of
        Some (Logged plog) \<Rightarrow>
          Some (setWorker
                  (s\<lparr> procSummary := updateSummary (procSummary s) (Procedure plog) (StartTime plog)
                                        (EndTime plog) (Status plog) \<rparr>)
                  j k Waiting)
      | _ \<Rightarrow> None)"
| "applyAction cfg conc (CloseProcCh j) s =
     (if j < length (running s) \<and> toFeed (running s ! j) = [] \<and> \<not> procChClosed (running s ! j)
      then Some (s\<lparr> running := (running s)[j := (running s ! j)\<lparr> procChClosed := True \<rparr>] \<rparr>)
      else None)"
| "applyAction cfg conc (ExitWorker j k) s =
     (case workerAt s j k of
        Some Waiting \<Rightarrow>
          (if procChClosed (running s ! j) then Some (setWorker s j k Exited) else None)
      | _ \<Rightarrow> None)"
| "applyAction cfg conc (ReturnSol j) s =
     (if j < length (running s) \<and> toFeed (running s ! j) = [] \<and> procChClosed (running s ! j)
         \<and> list_all (\<lambda>w. w = Exited) (workers (running s ! j))
      then Some (s\<lparr> running := take j (running s) @ drop (Suc j) (running s),
                    completed := Suc (completed s) \<rparr>)
      else None)"

text \<open>A schedule is a list of steps; any interleaving of the goroutines is one.\<close>

fun execute :: "ExtractionConfig \<Rightarrow> nat \<Rightarrow> action list \<Rightarrow> system \<Rightarrow> system option" where
  "execute cfg conc [] s = Some s"
| "execute cfg conc (a # as) s =
     (case applyAction cfg conc a s of None \<Rightarrow> None | Some s' \<Rightarrow> execute cfg conc as s')"

text \<open>The run is complete: \<open>wg.Wait()\<close> of \<open>main\<close> returns.\<close>

definition finished :: "system \<Rightarrow> bool" where
  "finished s = (pendingSols s = [] \<and> running s = [])"

text \<open>
  The pair a log record is for, and the pairs a state still owes a record: those of the
  SOLs not started, of the procedures not fed, and of the procedures a worker holds.
\<close>

definition logKey :: "ProcLog \<Rightarrow> string \<times> string" where
  "logKey l = (SolID l, Procedure l)"

definition workerPending :: "string \<Rightarrow> worker \<Rightarrow> (string \<times> string) multiset" where
  "workerPending sol w = (case w of Got proc \<Rightarrow> {#(sol, proc)#} | _ \<Rightarrow> {#})"

definition runPending :: "solRun \<Rightarrow> (string \<times> string) multiset" where
  "runPending r =
     mset (map (Pair (runSol r)) (toFeed r)) + sum_list (map (workerPending (runSol r)) (workers r))"

definition sysPending :: "ExtractionConfig \<Rightarrow> system \<Rightarrow> (string \<times> string) multiset" where
  "sysPending cfg s =
     mset (List.product (pendingSols s) (Procedures cfg)) + sum_list (map runPending (running s))"

definition accounted :: "ExtractionConfig \<Rightarrow> system \<Rightarrow> (string \<times> string) multiset" where
  "accounted cfg s = mset (map logKey (procLogCh s)) + sysPending cfg s"


text \<open>
  What holds of every call in flight: it has its \<open>numWorkers\<close> workers, the channel is
  closed only once everything is fed, and a worker has left only once the channel is
  closed.
\<close>

definition wellFormedRun :: "solRun \<Rightarrow> bool" where
  "wellFormedRun r =
     (length (workers r) = numWorkers \<and> (toFeed r = [] \<or> \<not> procChClosed r)
      \<and> (procChClosed r \<or> Exited \<notin> set (workers r)))"

definition wellFormed :: "system \<Rightarrow> bool" where
  "wellFormed s = list_all wellFormedRun (running s)"

text \<open>A bound on the steps a state has still to take.\<close>

definition workerCost :: "worker \<Rightarrow> nat" where
  "workerCost w = (case w of Waiting \<Rightarrow> 1 | Got proc \<Rightarrow> 3 | Logged plog \<Rightarrow> 2 | Exited \<Rightarrow> 0)"

definition runCost :: "solRun \<Rightarrow> nat" where
  "runCost r =
     3 * length (toFeed r) + (if procChClosed r then 0 else 1) + sum_list (map workerCost (workers r)) + 1"

definition stepsLeft :: "ExtractionConfig \<Rightarrow> system \<Rightarrow> nat" where
  "stepsLeft cfg s =
     length (pendingSols s) * (3 * length (Procedures cfg) + numWorkers + 3)
       + sum_list (map runCost (running s))"


definition exampleSchedule :: "action list" where
  "exampleSchedule =
     [StartSol, StartSol, Feed 1 3, Feed 0 0, Feed 0 1, CallAndLog 0 1 3 4 (Some ''ORA-06550''),
      CloseProcCh 0, CallAndLog 1 3 1 2 None, Feed 1 0, CallAndLog 0 0 3 9 None, UpdateSummary 0 0,
      UpdateSummary 0 1, ExitWorker 0 0, ExitWorker 0 1, ExitWorker 0 2, ExitWorker 0 3, ReturnSol 0,
      CallAndLog 0 0 5 6 None, UpdateSummary 0 0, UpdateSummary 0 3, CloseProcCh 0, ExitWorker 0 0,
      ExitWorker 0 1, ExitWorker 0 2, ExitWorker 0 3, ReturnSol 0]"

section \<open>Summary aggregation\<close>

lemma updateSummary_other:
  "q \<noteq> p \<Longrightarrow> updateSummary summ p s e st q = summ q"
  by (simp add: updateSummary_def Let_def split: option.splits)

lemma updateSummary_same_None:
  "summ p = None \<Longrightarrow>
   updateSummary summ p s e st p =
     Some \<lparr> sumProcedure = p, sumStartTime = s, sumEndTime = e, sumStatus = st \<rparr>"
  by (simp add: updateSummary_def)

lemma updateSummary_same_Some:
  "summ p = Some a \<Longrightarrow>
   updateSummary summ p s e st p =
     Some \<lparr> sumProcedure = sumProcedure a, sumStartTime = min s (sumStartTime a),
            sumEndTime = max e (sumEndTime a),
            sumStatus = (if sumStatus a \<noteq> ''FAIL'' \<and> st = ''FAIL'' then ''FAIL'' else sumStatus a) \<rparr>"
  by (cases a) (simp add: updateSummary_def Let_def min_def max_def)

lemma updateSummary_commute:
  assumes "st1 = ''SUCCESS'' \<or> st1 = ''FAIL''" and "st2 = ''SUCCESS'' \<or> st2 = ''FAIL''"
  shows "updateSummary (updateSummary summ p1 s1 e1 st1) p2 s2 e2 st2 =
         updateSummary (updateSummary summ p2 s2 e2 st2) p1 s1 e1 st1"
proof (rule ext)
  fix q
  show "updateSummary (updateSummary summ p1 s1 e1 st1) p2 s2 e2 st2 q =
        updateSummary (updateSummary summ p2 s2 e2 st2) p1 s1 e1 st1 q"
  proof (cases "p1 = p2")
    case False
    then show ?thesis
      by (cases "q = p1"; cases "q = p2"; cases "summ q")
         (simp_all add: updateSummary_other updateSummary_same_None updateSummary_same_Some)
  next
    case True
    show ?thesis
    proof (cases "q = p1")
      case False
      with True show ?thesis by (simp add: updateSummary_other)
    next
      case qp: True
      show ?thesis
      proof (cases "summ p1")
        case None
        with True qp assms show ?thesis
          by (auto simp add: updateSummary_same_None updateSummary_same_Some min.commute max.commute)
      next
        case (Some a)
        with True qp assms show ?thesis
          by (auto simp add: updateSummary_same_Some min.left_commute max.left_commute)
      qed
    qed
  qed
qed

lemma applyUpdate_commute:
  "validStatus u \<Longrightarrow> validStatus v \<Longrightarrow> applyUpdate u \<circ> applyUpdate v = applyUpdate v \<circ> applyUpdate u"
proof -
  assume vu: "validStatus u" and vv: "validStatus v"
  obtain p1 s1 e1 st1 where u: "u = (p1, s1, e1, st1)" by (cases u)
  obtain p2 s2 e2 st2 where v: "v = (p2, s2, e2, st2)" by (cases v)
  from vu u have 1: "st1 = ''SUCCESS'' \<or> st1 = ''FAIL''" by (simp add: validStatus_def)
  from vv v have 2: "st2 = ''SUCCESS'' \<or> st2 = ''FAIL''" by (simp add: validStatus_def)
  show ?thesis
    unfolding u v using updateSummary_commute [OF 2 1] by (simp add: fun_eq_iff)
qed

text \<open>
  C2. For tuples whose status is one of the two values the worker ever produces
  (\<open>SUCCESS\<close>, \<open>FAIL\<close>), two sequences holding the same multiset of updates lead from any
  summary map to the same summary map, hence to the same aggregate for every operation.
\<close>

theorem summary_update_order_irrelevant:
  assumes "mset us = mset vs" and "\<forall>u \<in> set us. validStatus u"
  shows "applyUpdates us summ = applyUpdates vs summ"
proof -
  have "fold applyUpdate us = fold applyUpdate vs"
    using assms by (intro fold_multiset_equiv) (auto intro: applyUpdate_commute)
  then show ?thesis by (simp add: applyUpdates_def)
qed

theorem summary_update_order_irrelevant_witness:
  "applyUpdates [(''P1'', 3, 9, ''SUCCESS''), (''P1'', 1, 4, ''FAIL''), (''P2'', 2, 5, ''SUCCESS'')] Map.empty =
   applyUpdates [(''P2'', 2, 5, ''SUCCESS''), (''P1'', 1, 4, ''FAIL''), (''P1'', 3, 9, ''SUCCESS'')] Map.empty"
  using summary_update_order_irrelevant
    [of "[(''P1'', 3, 9, ''SUCCESS''), (''P1'', 1, 4, ''FAIL''), (''P2'', 2, 5, ''SUCCESS'')]"
        "[(''P2'', 2, 5, ''SUCCESS''), (''P1'', 1, 4, ''FAIL''), (''P1'', 3, 9, ''SUCCESS'')]" Map.empty]
  by (simp add: validStatus_def)

lemma failedIn_after_FAIL: "failedIn (updateSummary summ p s e ''FAIL'') p"
  by (cases "summ p")
     (simp_all add: failedIn_def updateSummary_same_None updateSummary_same_Some)

lemma failedIn_updateSummary:
  "failedIn summ p \<Longrightarrow> failedIn (updateSummary summ q s e st) p"
proof (cases "q = p")
  case False
  assume "failedIn summ p"
  with False show ?thesis
    by (simp add: failedIn_def updateSummary_other [of p q])
next
  case True
  assume "failedIn summ p"
  then obtain a where "summ p = Some a" "sumStatus a = ''FAIL''"
    by (auto simp add: failedIn_def split: option.splits)
  with True show ?thesis
    by (simp add: failedIn_def updateSummary_same_Some)
qed

lemma failedIn_applyUpdates:
  "failedIn summ p \<Longrightarrow> failedIn (applyUpdates us summ) p"
proof (induction us arbitrary: summ)
  case Nil
  then show ?case by (simp add: applyUpdates_def)
next
  case (Cons u us)
  obtain q s e st where u: "u = (q, s, e, st)" by (cases u)
  from Cons.prems have "failedIn (updateSummary summ q s e st) p"
    by (rule failedIn_updateSummary)
  then have "failedIn (applyUpdates us (updateSummary summ q s e st)) p"
    by (rule Cons.IH)
  then show ?case by (simp add: applyUpdates_def u)
qed

text \<open>
  C3. Once an update with status \<open>FAIL\<close> has been applied for operation \<open>p\<close>, the entry of
  \<open>p\<close> exists and has status \<open>FAIL\<close> after any further sequence of updates (for any
  operations, with any statuses).
\<close>

theorem sticky_failure:
  "\<exists>a. applyUpdates us (updateSummary summ p s e ''FAIL'') p = Some a \<and> sumStatus a = ''FAIL''"
proof -
  have "failedIn (applyUpdates us (updateSummary summ p s e ''FAIL'')) p"
    by (rule failedIn_applyUpdates) (rule failedIn_after_FAIL)
  then show ?thesis
    by (cases "applyUpdates us (updateSummary summ p s e ''FAIL'') p") (simp_all add: failedIn_def)
qed


lemma Min_insert_min:
  fixes x :: int
  shows "finite A \<Longrightarrow> Min (insert (min s x) A) = Min (insert x (insert s A))"
  by (cases "A = {}") (simp_all add: min.assoc min.commute min.left_commute)

lemma Max_insert_max:
  fixes x :: int
  shows "finite A \<Longrightarrow> Max (insert (max s x) A) = Max (insert x (insert s A))"
  by (cases "A = {}") (simp_all add: max.assoc max.commute max.left_commute)

lemma aggregate_fields:
  "sumProcedure (aggregate a ts) = sumProcedure a \<and>
   sumStartTime (aggregate a ts) = Min (insert (sumStartTime a) (fst ` set ts)) \<and>
   sumEndTime (aggregate a ts) = Max (insert (sumEndTime a) ((fst \<circ> snd) ` set ts)) \<and>
   sumStatus (aggregate a ts) =
     (if sumStatus a \<noteq> ''FAIL'' \<and> ''FAIL'' \<in> (snd \<circ> snd) ` set ts then ''FAIL'' else sumStatus a)"
proof (induction a ts rule: aggregate.induct)
  case (1 a)
  then show ?case by simp
next
  case (2 a s e st ts)
  then show ?case
    by (simp add: Min_insert_min Max_insert_max del: Min_insert Max_insert)
qed

lemma applyUpdates_same_proc:
  "summ p = Some a \<Longrightarrow>
   applyUpdates (map (\<lambda>(s, e, st). (p, s, e, st)) ts) summ p = Some (aggregate a ts)"
proof (induction ts arbitrary: summ a)
  case Nil
  then show ?case by (simp add: applyUpdates_def)
next
  case (Cons t ts)
  obtain s e st where t: "t = (s, e, st)" by (cases t)
  let ?a = "\<lparr> sumProcedure = sumProcedure a, sumStartTime = min s (sumStartTime a),
              sumEndTime = max e (sumEndTime a),
              sumStatus = (if sumStatus a \<noteq> ''FAIL'' \<and> st = ''FAIL'' then ''FAIL'' else sumStatus a) \<rparr>"
  have "updateSummary summ p s e st p = Some ?a"
    using Cons.prems by (rule updateSummary_same_Some)
  from Cons.IH [of "updateSummary summ p s e st" ?a, OF this] show ?case
    by (simp add: applyUpdates_def t)
qed

text \<open>
  The aggregate reflects all the outcomes of an operation: from a map without an entry for
  it, the updates of one operation (each with status \<open>SUCCESS\<close> or \<open>FAIL\<close>) leave the
  earliest start, the latest end, and \<open>FAIL\<close> exactly when one of them failed.
\<close>

theorem summary_aggregate_closed_form:
  assumes "summ p = None" and "ts \<noteq> []"
    and "\<forall>t \<in> set ts. snd (snd t) = ''SUCCESS'' \<or> snd (snd t) = ''FAIL''"
  shows "applyUpdates (map (\<lambda>(s, e, st). (p, s, e, st)) ts) summ p =
           Some \<lparr> sumProcedure = p, sumStartTime = Min (fst ` set ts),
                  sumEndTime = Max ((fst \<circ> snd) ` set ts),
                  sumStatus = (if ''FAIL'' \<in> (snd \<circ> snd) ` set ts then ''FAIL'' else ''SUCCESS'') \<rparr>"
proof -
  from assms(2) obtain s e st rest where ts: "ts = (s, e, st) # rest"
    by (cases ts) auto
  let ?a = "\<lparr> sumProcedure = p, sumStartTime = s, sumEndTime = e, sumStatus = st \<rparr>"
  have first: "updateSummary summ p s e st p = Some ?a"
    using assms(1) by (rule updateSummary_same_None)
  have "applyUpdates (map (\<lambda>(s, e, st). (p, s, e, st)) ts) summ p =
        applyUpdates (map (\<lambda>(s, e, st). (p, s, e, st)) rest) (updateSummary summ p s e st) p"
    by (simp add: applyUpdates_def ts)
  also have "\<dots> = Some (aggregate ?a rest)"
    using first by (rule applyUpdates_same_proc [of "updateSummary summ p s e st" p ?a rest])
  finally have run: "applyUpdates (map (\<lambda>(s, e, st). (p, s, e, st)) ts) summ p = Some (aggregate ?a rest)" .
  from assms(3) ts have st: "st = ''SUCCESS'' \<or> st = ''FAIL''" by simp
  have "aggregate ?a rest =
          \<lparr> sumProcedure = p, sumStartTime = Min (fst ` set ts),
            sumEndTime = Max ((fst \<circ> snd) ` set ts),
            sumStatus = (if ''FAIL'' \<in> (snd \<circ> snd) ` set ts then ''FAIL'' else ''SUCCESS'') \<rparr>"
    using aggregate_fields [of ?a rest] st
    by (cases "aggregate ?a rest") (auto simp add: ts)
  with run show ?thesis by simp
qed

theorem summary_aggregate_closed_form_witness:
  "applyUpdates [(''P1'', 3, 9, ''SUCCESS''), (''P1'', 1, 4, ''FAIL''), (''P1'', 2, 12, ''SUCCESS'')] Map.empty ''P1'' =
     Some \<lparr> sumProcedure = ''P1'', sumStartTime = 1, sumEndTime = 12, sumStatus = ''FAIL'' \<rparr>"
  using summary_aggregate_closed_form
    [of Map.empty "''P1''" "[(3, 9, ''SUCCESS''), (1, 4, ''FAIL''), (2, 12, ''SUCCESS'')]"]
  by simp

section \<open>Row formatting: fixed-width mode\<close>


lemma runeSize_ascii: "(of_char c :: nat) < 0x80 \<Longrightarrow> runeSize c cs = 1"
  by (simp add: runeSize_def)

lemma runeCountFrom_ascii: "asciiOnly s \<Longrightarrow> runeCountFrom 0 s = length s"
  by (induction s) (simp_all add: asciiOnly_def runeSize_ascii)

lemma RuneCountInString_ascii: "asciiOnly s \<Longrightarrow> RuneCountInString s = length s"
  by (simp add: RuneCountInString_def runeCountFrom_ascii)

lemma length_sanitize: "length (sanitize s) = length s"
  by (simp add: sanitize_def replaceByte_def)

lemma asciiOnly_sanitize: "asciiOnly s \<Longrightarrow> asciiOnly (sanitize s)"
  by (induction s) (simp_all add: asciiOnly_def sanitize_def replaceByte_def)

lemma asciiOnly_take: "asciiOnly s \<Longrightarrow> asciiOnly (take n s)"
  by (auto simp add: asciiOnly_def list_all_iff dest: in_set_takeD)

lemma sanitize_no_newline: "CHR 0x0A \<notin> set (sanitize s) \<and> CHR 0x0D \<notin> set (sanitize s)"
  by (auto simp add: sanitize_def replaceByte_def)

lemma truncateTo_nonneg: "0 \<le> n \<Longrightarrow> truncateTo n val = Inr (take (nat n) val)"
  by (auto simp add: truncateTo_def)

lemma truncateTo_neg: "n < 0 \<Longrightarrow> truncateTo n val = Inl SliceBoundsOutOfRange"
  by (auto simp add: truncateTo_def)

lemma padField_ascii:
  assumes "0 \<le> Length col" "Length col \<le> 1000000" "asciiOnly v"
  shows "padField col (take (nat (Length col)) (sanitize v)) = specField col v"
proof -
  let ?t = "take (nat (Length col)) (sanitize v)"
  have rc: "RuneCountInString ?t = length ?t"
    using assms(3) by (intro RuneCountInString_ascii asciiOnly_take asciiOnly_sanitize)
  have pad: "nat (Length col - int (length ?t)) = nat (Length col) - length ?t"
    using assms(1) by simp
  show ?thesis
  proof (cases "Length col = 0")
    case True
    then show ?thesis
      by (simp add: padField_def sprintfStarS_def padString_def specField_def)
  next
    case False
    with assms(1,2) rc pad show ?thesis
      by (simp add: padField_def sprintfStarS_def padString_def specField_def writePadding_def Let_def)
  qed
qed

lemma length_specField: "length (specField col v) = nat (Length col)"
  by (simp add: specField_def Let_def)

lemma fixedLoop_ok:
  assumes "length cols + i \<le> length values" "\<forall>col \<in> set cols. 0 \<le> Length col"
  shows "fixedLoop cols values i out =
         Inr (out @ concat (map2 (\<lambda>col v. padField col (take (nat (Length col)) (sanitize v))) cols (drop i values)))"
  using assms
proof (induction cols arbitrary: i out)
  case Nil
  then show ?case by simp
next
  case (Cons col cols)
  from Cons.prems have i: "i < length values" and rest: "length cols + Suc i \<le> length values"
    and nn: "0 \<le> Length col" "\<forall>c \<in> set cols. 0 \<le> Length c" by simp_all
  from i have d: "drop i values = values ! i # drop (Suc i) values"
    by (simp add: Cons_nth_drop_Suc)
  show ?case
    using i nn(1) Cons.IH [OF rest nn(2)] by (simp add: truncateTo_nonneg d)
qed

lemma map2_specField:
  assumes "\<forall>col \<in> set cols. 0 \<le> Length col \<and> Length col \<le> 1000000"
    and "\<forall>v \<in> set values. asciiOnly v"
  shows "map2 (\<lambda>col v. padField col (take (nat (Length col)) (sanitize v))) cols values =
         map2 specField cols values"
proof (rule map_cong [OF refl])
  fix p assume "p \<in> set (zip cols values)"
  then have "(fst p, snd p) \<in> set (zip cols values)" by simp
  then have "fst p \<in> set cols" "snd p \<in> set values"
    by (rule set_zip_leftD, rule set_zip_rightD)
  with assms show "(case p of (col, v) \<Rightarrow> padField col (take (nat (Length col)) (sanitize v))) =
        (case p of (col, v) \<Rightarrow> specField col v)"
    by (cases p) (simp add: padField_ascii)
qed

lemma length_concat_specField:
  "length cols = length values \<Longrightarrow>
   length (concat (map2 specField cols values)) = sum_list (map (\<lambda>col. nat (Length col)) cols)"
proof (induction cols "values" rule: list_induct2)
  case Nil
  then show ?case by simp
next
  case (Cons col cols v vs)
  then show ?case by (simp add: length_specField)
qed


text \<open>
  Fixed-width rows of single-byte values: with one value per column, widths between 0 and
  1000000 and values of bytes below 0x80, the line is the concatenation of the fields as
  the specification words them (\<open>specField\<close>), with nothing between them, and its length
  is the sum of the widths.
\<close>

theorem fixed_width_single_byte_values:
  assumes "Format cfg = ''fixed''" and "length values = length cols"
    and "\<forall>col \<in> set cols. 0 \<le> Length col \<and> Length col \<le> 1000000"
    and "\<forall>v \<in> set values. asciiOnly v"
  shows "formatRow cfg cols values = Inr (concat (map2 specField cols values)) \<and>
         length (concat (map2 specField cols values)) = sum_list (map (\<lambda>col. nat (Length col)) cols)"
proof -
  from assms(3) have nn: "\<forall>col \<in> set cols. 0 \<le> Length col" by simp
  from assms(2) have len: "length cols + 0 \<le> length values" by simp
  have "formatRow cfg cols values = fixedLoop cols values 0 []"
    using assms(1) by (simp add: formatRow_def)
  also have "\<dots> = Inr (concat (map2 specField cols values))"
    using fixedLoop_ok [OF len nn, of "[]"] map2_specField [OF assms(3,4)] by simp
  finally show ?thesis
    using length_concat_specField [of cols "values"] assms(2) by simp
qed


theorem fixed_width_single_byte_values_witness:
  "formatRow (exampleConfig ''fixed'' '','') exampleLayout [''7'', ''42''] = Inr ''7        42'' \<and>
   length ''7        42'' = 11"
  using fixed_width_single_byte_values
    [of "exampleConfig ''fixed'' '',''" "[''7'', ''42'']" exampleLayout]
  by (simp add: exampleConfig_def exampleLayout_def asciiOnly_def specField_def sanitize_def
      replaceByte_def eval_nat_numeral)

text \<open>
  C5. The formatted line has the length of the sum of the widths, longer values are cut
  and shorter ones padded to the width. The code pads to a width counted in runes
  (\<open>fmt\<close>) and cuts at a width counted in bytes: the two-byte value \<open>C3 A9\<close> in a
  left-justified column of width 3 gets two spaces and is four bytes long, and the
  six-byte, three-rune value \<open>C3 A9 C3 A9 C3 A9\<close> in a column of width 4 is cut to four
  bytes and then padded to six.
\<close>

theorem fixed_width_multibyte_value:
  "formatRow (exampleConfig ''fixed'' '','') [\<lparr> Name = ''NAME'', Length = 3, Align = ''left'' \<rparr>]
     [[CHR 0xC3, CHR 0xA9]] = Inr [CHR 0xC3, CHR 0xA9, CHR '' '', CHR '' ''] \<and>
   formatRow (exampleConfig ''fixed'' '','') [\<lparr> Name = ''NAME'', Length = 4, Align = ''left'' \<rparr>]
     [[CHR 0xC3, CHR 0xA9, CHR 0xC3, CHR 0xA9, CHR 0xC3, CHR 0xA9]] =
     Inr [CHR 0xC3, CHR 0xA9, CHR 0xC3, CHR 0xA9, CHR '' '', CHR '' '']"
  by (simp add: exampleConfig_def formatRow_def truncateTo_def sanitize_def replaceByte_def
      padField_def sprintfStarS_def padString_def RuneCountInString_def runeSize_def byteIn_def
      writePadding_def eval_nat_numeral)

lemma fixedLoop_index_in_range:
  "length cols + i \<le> length values \<Longrightarrow> fixedLoop cols values i out \<noteq> Inl IndexOutOfRange"
proof (induction cols arbitrary: i out)
  case Nil
  then show ?case by simp
next
  case (Cons col cols)
  from Cons.prems have i: "i < length values" and rest: "length cols + Suc i \<le> length values"
    by simp_all
  show ?case
  proof (cases "Length col < 0")
    case True
    with i show ?thesis by (simp add: truncateTo_neg)
  next
    case False
    with i Cons.IH [OF rest, of "out @ padField col (take (nat (Length col)) (sanitize (values ! i)))"]
    show ?thesis by (simp add: truncateTo_nonneg)
  qed
qed

lemma fixedLoop_too_few_values:
  "length values < length cols + i \<Longrightarrow> i \<le> length values \<Longrightarrow>
   \<exists>e. fixedLoop cols values i out = Inl e"
proof (induction cols arbitrary: i out)
  case Nil
  then show ?case by simp
next
  case (Cons col cols)
  show ?case
  proof (cases "length values \<le> i")
    case True
    then show ?thesis by simp
  next
    case False
    with Cons.prems have rest: "length values < length cols + Suc i" "Suc i \<le> length values"
      by simp_all
    show ?thesis
    proof (cases "truncateTo (Length col) (sanitize (values ! i))")
      case (Inl e)
      with False show ?thesis by simp
    next
      case (Inr val)
      with False Cons.IH [OF rest, of "out @ padField col val"] show ?thesis by simp
    qed
  qed
qed

lemma fixedLoop_too_few_values_index:
  "length values < length cols + i \<Longrightarrow> i \<le> length values \<Longrightarrow>
   \<forall>col \<in> set cols. 0 \<le> Length col \<Longrightarrow>
   fixedLoop cols values i out = Inl IndexOutOfRange"
proof (induction cols arbitrary: i out)
  case Nil
  then show ?case by simp
next
  case (Cons col cols)
  show ?case
  proof (cases "length values \<le> i")
    case True
    then show ?thesis by simp
  next
    case False
    with Cons.prems have rest: "length values < length cols + Suc i" "Suc i \<le> length values"
      and nn: "0 \<le> Length col" "\<forall>c \<in> set cols. 0 \<le> Length c" by simp_all
    with False Cons.IH [OF rest nn(2), of "out @ padField col (take (nat (Length col)) (sanitize (values ! i)))"]
    show ?thesis by (simp add: truncateTo_nonneg)
  qed
qed


text \<open>
  C10. In fixed-width mode \<open>values[i]\<close> is read for every column index \<open>i\<close>. With at least
  as many values as columns no index is out of range; with fewer values the call panics,
  and with non-negative widths the panic is the index out of range. Delimited mode reads
  the values only through \<open>range\<close> and returns a line for any row.
\<close>


theorem fixed_width_needs_enough_values:
  assumes "Format cfg = ''fixed''"
  shows "(length cols \<le> length values \<longrightarrow> formatRow cfg cols values \<noteq> Inl IndexOutOfRange) \<and>
         (length values < length cols \<longrightarrow> (\<exists>e. formatRow cfg cols values = Inl e)) \<and>
         (length values < length cols \<and> (\<forall>col \<in> set cols. 0 \<le> Length col) \<longrightarrow>
            formatRow cfg cols values = Inl IndexOutOfRange) \<and>
         formatRow (cfg\<lparr>Format := ''delimited''\<rparr>) cols values =
            Inr (joinStrings (map sanitize values) (Delimiter cfg))"
  using assms fixedLoop_index_in_range [of cols 0 "values" "[]"]
    fixedLoop_too_few_values [of "values" cols 0 "[]"]
    fixedLoop_too_few_values_index [of "values" cols 0 "[]"]
  by (simp add: formatRow_def)

theorem fixed_width_needs_enough_values_witness:
  "formatRow (exampleConfig ''fixed'' '','') exampleLayout [''7'', ''42''] \<noteq> Inl IndexOutOfRange \<and>
   formatRow (exampleConfig ''fixed'' '','') exampleLayout [''7''] = Inl IndexOutOfRange"
  using fixed_width_needs_enough_values [of "exampleConfig ''fixed'' '',''" exampleLayout "[''7'', ''42'']"]
    fixed_width_needs_enough_values [of "exampleConfig ''fixed'' '',''" exampleLayout "[''7'']"]
  by (simp add: exampleConfig_def exampleLayout_def)

section \<open>Row formatting: delimited mode\<close>


lemma HasPrefix_self_append: "HasPrefix (sep @ rest) sep"
  by (simp add: HasPrefix_def)

lemma Index_short: "length s < length d \<Longrightarrow> Index s d = None"
  by (induction s) (auto simp add: HasPrefix_def)

lemma HasPrefix_append_long:
  assumes "length d \<le> length x"
  shows "HasPrefix (x @ y) d \<longleftrightarrow> HasPrefix x d"
proof -
  have t: "take (length d) (x @ y) = take (length d) x" using assms by simp
  have l: "length d \<le> length (x @ y)" using assms by simp
  show ?thesis unfolding HasPrefix_def t using assms l by blast
qed

lemma Index_at_join_iff:
  assumes "d \<noteq> []"
  shows "Index (v @ d @ rest) d = Some (length v) \<longleftrightarrow> Index (v @ butlast d) d = None"
proof -
  from assms obtain d' l where d: "d = d' @ [l]" by (cases d rule: rev_cases) auto
  have self: "Index (d @ rest) d = Some 0"
    using assms HasPrefix_self_append [of d rest] by (cases "d @ rest") simp_all
  have "Index (v @ d @ rest) d = Some (length v) \<longleftrightarrow> Index (v @ d') d = None"
  proof (induction v)
    case Nil
    have "Index d' d = None" by (rule Index_short) (simp add: d)
    with self show ?case by simp
  next
    case (Cons c v)
    let ?x = "c # v @ d'"
    have split: "(c # v) @ d @ rest = ?x @ l # rest" by (simp add: d)
    have "length d \<le> length ?x" by (simp add: d)
    then have hp: "HasPrefix ((c # v) @ d @ rest) d \<longleftrightarrow> HasPrefix ?x d"
      unfolding split by (rule HasPrefix_append_long)
    show ?case
    proof (cases "HasPrefix ?x d")
      case True
      with hp show ?thesis by simp
    next
      case False
      with hp have "\<not> HasPrefix (c # v @ d @ rest) d" by simp
      with False Cons.IH show ?thesis by auto
    qed
  qed
  then show ?thesis by (simp add: d)
qed

lemma Index_join_exists:
  assumes "d \<noteq> []"
  shows "\<exists>m \<le> length v. Index (v @ d @ rest) d = Some m"
proof (induction v)
  case Nil
  have "Index (d @ rest) d = Some 0"
    using assms HasPrefix_self_append [of d rest] by (cases "d @ rest") simp_all
  then show ?case by simp
next
  case (Cons c v)
  then obtain m where "m \<le> length v" "Index (v @ d @ rest) d = Some m" by blast
  then show ?case by (cases "HasPrefix (c # v @ d @ rest) d") auto
qed

lemma Split_not_Nil: "d \<noteq> [] \<Longrightarrow> Split s d \<noteq> []"
  by (subst Split.simps) (simp split: option.splits)

lemma Split_one_iff:
  assumes "d \<noteq> []"
  shows "Split a d = [a] \<longleftrightarrow> \<not> Contains a d"
proof (cases "Index a d")
  case None
  with assms show ?thesis by (subst Split.simps) (simp add: Contains_def)
next
  case (Some m)
  with assms Split_not_Nil [OF assms, of "drop (m + length d) a"] show ?thesis
    by (subst Split.simps) (simp add: Contains_def)
qed

lemma Split_more_iff:
  assumes "d \<noteq> []"
  shows "Split (a @ d @ rest) d = a # bs \<longleftrightarrow> \<not> Contains (a @ butlast d) d \<and> Split rest d = bs"
proof -
  from Index_join_exists [OF assms, of a rest]
  obtain m where m: "m \<le> length a" "Index (a @ d @ rest) d = Some m" by blast
  have eq: "Split (a @ d @ rest) d = take m a # Split (drop (m + length d) (a @ d @ rest)) d"
    using assms m by (subst Split.simps) simp
  show ?thesis
  proof (cases "m = length a")
    case True
    with m(2) Index_at_join_iff [OF assms, of a rest] have "\<not> Contains (a @ butlast d) d"
      by (simp add: Contains_def)
    with eq True show ?thesis by simp
  next
    case False
    with m(2) Index_at_join_iff [OF assms, of a rest] have "Contains (a @ butlast d) d"
      by (simp add: Contains_def)
    moreover from False m(1) have "take m a \<noteq> a" by (metis length_take min.absorb2 nat_le_linear take_all)
    ultimately show ?thesis using eq by simp
  qed
qed

lemma Split_joinStrings_iff:
  assumes "d \<noteq> []"
  shows "Split (joinStrings vs d) d = vs \<longleftrightarrow>
         vs \<noteq> [] \<and> (\<forall>v \<in> set (butlast vs). \<not> Contains (v @ butlast d) d) \<and> \<not> Contains (last vs) d"
  using assms
proof (induction vs d rule: joinStrings.induct)
  case (1 sep)
  then show ?case using Split_not_Nil [of sep "[]"] by simp
next
  case (2 a sep)
  then show ?case by (simp add: Split_one_iff)
next
  case (3 a b rest sep)
  from 3 have ih: "Split (joinStrings (b # rest) sep) sep = b # rest \<longleftrightarrow>
      b # rest \<noteq> [] \<and> (\<forall>v \<in> set (butlast (b # rest)). \<not> Contains (v @ butlast sep) sep)
        \<and> \<not> Contains (last (b # rest)) sep" by blast
  have "Split (joinStrings (a # b # rest) sep) sep = a # b # rest \<longleftrightarrow>
        \<not> Contains (a @ butlast sep) sep \<and> Split (joinStrings (b # rest) sep) sep = b # rest"
    using Split_more_iff [OF 3(2), of a "joinStrings (b # rest) sep" "b # rest"] by simp
  with ih show ?case by simp
qed

lemma set_joinStrings_eq:
  "set (joinStrings vs sep) = (\<Union>v \<in> set vs. set v) \<union> (if 2 \<le> length vs then set sep else {})"
  by (induction vs sep rule: joinStrings.induct) auto

lemma joinStrings_empty_sep: "joinStrings vs [] = concat vs"
  by (induction vs "[] :: string" rule: joinStrings.induct) simp_all

text \<open>
  C6 as stated fails: a value that holds the delimiter is split in two.
\<close>

theorem delimited_split_counterexample:
  "formatRow (exampleConfig ''delimited'' '','') exampleLayout [''a,b'', ''c''] = Inr ''a,b,c'' \<and>
   Split ''a,b,c'' (Delimiter (exampleConfig ''delimited'' '','')) = [''a'', ''b'', ''c''] \<and>
   map sanitize [''a,b'', ''c''] = [''a,b'', ''c'']"
  by (simp add: exampleConfig_def formatRow_def sanitize_def replaceByte_def Split.simps
      HasPrefix_def)

text \<open>
  C6, amended. For every row and every delimiter. With a non-empty delimiter, splitting
  the line on the delimiter gives the sanitized values in order exactly when the row is
  not empty and no occurrence of the delimiter begins inside a sanitized value: the
  delimiter occurs neither in the last sanitized value nor in another sanitized value
  followed by the delimiter without its last byte (for a delimiter of one byte: no
  sanitized value holds it). With the empty delimiter the split gives the UTF-8 sequences
  of the concatenated sanitized values. The line holds no newline and no carriage return
  exactly when the delimiter holds none or the row has fewer than two values.
\<close>

theorem delimited_split_recovers:
  assumes "Format cfg = ''delimited''"
  shows "\<exists>line. formatRow cfg cols values = Inr line \<and>
           (Delimiter cfg \<noteq> [] \<longrightarrow>
              (Split line (Delimiter cfg) = map sanitize values \<longleftrightarrow>
                 values \<noteq> [] \<and>
                 (\<forall>v \<in> set (butlast (map sanitize values)).
                     \<not> Contains (v @ butlast (Delimiter cfg)) (Delimiter cfg)) \<and>
                 \<not> Contains (last (map sanitize values)) (Delimiter cfg))) \<and>
           (Delimiter cfg = [] \<longrightarrow>
              Split line (Delimiter cfg) = explode (concat (map sanitize values))) \<and>
           (CHR 0x0A \<notin> set line \<and> CHR 0x0D \<notin> set line \<longleftrightarrow>
              length values < 2 \<or> (CHR 0x0A \<notin> set (Delimiter cfg) \<and> CHR 0x0D \<notin> set (Delimiter cfg)))"
proof -
  let ?svs = "map sanitize values"
  let ?line = "joinStrings ?svs (Delimiter cfg)"
  have 1: "formatRow cfg cols values = Inr ?line"
    using assms by (simp add: formatRow_def)
  have 2: "Split ?line (Delimiter cfg) = ?svs \<longleftrightarrow>
             values \<noteq> [] \<and>
             (\<forall>v \<in> set (butlast ?svs). \<not> Contains (v @ butlast (Delimiter cfg)) (Delimiter cfg)) \<and>
             \<not> Contains (last ?svs) (Delimiter cfg)"
    if "Delimiter cfg \<noteq> []"
    using Split_joinStrings_iff [OF that, of ?svs] by simp
  have 3: "Split ?line (Delimiter cfg) = explode (concat ?svs)" if "Delimiter cfg = []"
    using that by (subst Split.simps) (simp add: joinStrings_empty_sep)
  have clean: "CHR 0x0A \<notin> (\<Union>v \<in> set ?svs. set v)" "CHR 0x0D \<notin> (\<Union>v \<in> set ?svs. set v)"
    using sanitize_no_newline by auto
  have 4: "CHR 0x0A \<notin> set ?line \<and> CHR 0x0D \<notin> set ?line \<longleftrightarrow>
           length values < 2 \<or> (CHR 0x0A \<notin> set (Delimiter cfg) \<and> CHR 0x0D \<notin> set (Delimiter cfg))"
    using clean unfolding set_joinStrings_eq by auto
  from 1 2 3 4 show ?thesis by blast
qed


theorem delimited_split_recovers_witness:
  "formatRow (exampleConfig ''delimited'' ''ab'') exampleLayout [''xa'', [CHR ''b'', CHR 0x0A]] = Inr ''xaabb '' \<and>
   Split ''xaabb '' ''ab'' = [''xa'', ''b '']"
  using delimited_split_recovers
    [of "exampleConfig ''delimited'' ''ab''" exampleLayout "[''xa'', [CHR ''b'', CHR 0x0A]]"]
  by (simp add: exampleConfig_def formatRow_def sanitize_def replaceByte_def Contains_def HasPrefix_def)

section \<open>Row formatting: unknown format\<close>

lemma writeRows_unknown_format:
  assumes "Format cfg \<noteq> ''delimited''" and "Format cfg \<noteq> ''fixed''"
    and "\<forall>k. werr k = None"
  shows "list_all (rowFits cols) rows \<Longrightarrow>
         writeRows cfg cols werr k rows spool = Inr (None, spool @ replicate (length rows) (CHR 0x0A))"
proof (induction rows arbitrary: k spool)
  case Nil
  then show ?case by simp
next
  case (Cons r rows)
  then show ?case using assms
    by (cases r) (simp_all add: rowFits_def formatRow_def replicate_append_same)
qed

text \<open>
  C9 as stated fails: with the format \<open>xml\<close> every row is formatted to the empty string,
  the extraction of two rows returns no error and the spool file holds two empty lines.
\<close>

theorem unknown_format_counterexample:
  "formatRow (exampleConfig ''xml'' '','') exampleLayout [''7'', ''42''] = Inr [] \<and>
   extractData (exampleConfig ''xml'' '','')
     (exampleEnv [Row [Some ''7'', Some ''42''], Row [Some ''8'', None]] (\<lambda>k. None)) =
     Inr (None, Some [CHR 0x0A, CHR 0x0A])"
  by (simp add: exampleConfig_def exampleEnv_def exampleLayout_def formatRow_def extractData_def)

text \<open>
  C9, amended. With a format that is neither \<open>delimited\<close> nor \<open>fixed\<close>, \<open>formatRow\<close> returns
  the empty string for every row and raises nothing; an extraction whose layout, query,
  file creation, scans and writes succeed then returns no error, and its spool file holds
  one empty line for each row.
\<close>

theorem unknown_format_empty_line:
  assumes "Format cfg \<noteq> ''delimited''" and "Format cfg \<noteq> ''fixed''"
  shows "formatRow cfg cols values = Inr [] \<and>
         (layoutResult env = Inr layout \<and> queryResult env = Inr rows \<and> createError env = None \<and>
          list_all (rowFits layout) rows \<and> (\<forall>k. writeError env k = None) \<longrightarrow>
          extractData cfg env = Inr (None, Some (replicate (length rows) (CHR 0x0A))))"
proof -
  have "formatRow cfg cols values = Inr []"
    using assms by (simp add: formatRow_def)
  moreover have "extractData cfg env = Inr (None, Some (replicate (length rows) (CHR 0x0A)))"
    if "layoutResult env = Inr layout" "queryResult env = Inr rows" "createError env = None"
      "list_all (rowFits layout) rows" "\<forall>k. writeError env k = None"
    using that(1,2,3) writeRows_unknown_format [OF assms that(5,4), of 0 "[]"]
    by (simp add: extractData_def)
  ultimately show ?thesis by blast
qed

theorem unknown_format_empty_line_witness:
  "formatRow (exampleConfig ''json'' '','') exampleLayout [''7'', ''42''] = Inr [] \<and>
   extractData (exampleConfig ''json'' '','') (exampleEnv [Row [Some ''7'', Some ''42'']] (\<lambda>k. None)) =
     Inr (None, Some [CHR 0x0A])"
  using unknown_format_empty_line
    [of "exampleConfig ''json'' '',''" exampleLayout "[''7'', ''42'']"
        "exampleEnv [Row [Some ''7'', Some ''42'']] (\<lambda>k. None)" exampleLayout
        "[Row [Some ''7'', Some ''42'']]"]
  by (simp add: exampleConfig_def exampleEnv_def exampleLayout_def rowFits_def)

section \<open>Extraction outcomes\<close>

lemma writeRows_delimited:
  assumes "Format cfg = ''delimited''"
  shows "list_all (rowFits cols) rows \<Longrightarrow> \<exists>spool'. writeRows cfg cols werr k rows spool = Inr (None, spool')"
proof (induction rows arbitrary: k spool)
  case Nil
  then show ?case by simp
next
  case (Cons r rows)
  then show ?case using assms
    by (cases r) (simp_all add: rowFits_def formatRow_def)
qed

lemma writeRows_scan_error:
  assumes "Format cfg = ''delimited''"
  shows "list_all (rowFits cols) good \<Longrightarrow>
         \<exists>spool'. writeRows cfg cols werr k (good @ ScanError e # rest) spool = Inr (Some e, spool')"
proof (induction good arbitrary: k spool)
  case Nil
  then show ?case by simp
next
  case (Cons r good)
  then show ?case using assms
    by (cases r) (simp_all add: rowFits_def formatRow_def)
qed

text \<open>
  The outcomes of \<open>extractData\<close> that the code does report: the error of the layout load,
  of the query and of the file creation is returned; in delimited mode a scan error after
  any number of good rows is returned; and a query without rows returns no error and
  leaves an empty spool file.
\<close>

theorem extractData_reported_outcomes:
  "(layoutResult env = Inl e \<longrightarrow> extractData cfg env = Inr (Some e, None)) \<and>
   (layoutResult env = Inr layout \<and> queryResult env = Inl e \<longrightarrow>
      extractData cfg env = Inr (Some e, None)) \<and>
   (layoutResult env = Inr layout \<and> queryResult env = Inr rows \<and> createError env = Some e \<longrightarrow>
      extractData cfg env = Inr (Some e, None)) \<and>
   (layoutResult env = Inr layout \<and> queryResult env = Inr (good @ ScanError e # rest) \<and>
    createError env = None \<and> Format cfg = ''delimited'' \<and> list_all (rowFits layout) good \<longrightarrow>
      (\<exists>spool. extractData cfg env = Inr (Some e, Some spool))) \<and>
   (layoutResult env = Inr layout \<and> queryResult env = Inr [] \<and> createError env = None \<longrightarrow>
      extractData cfg env = Inr (None, Some []))"
proof -
  have "\<exists>spool. extractData cfg env = Inr (Some e, Some spool)"
    if "layoutResult env = Inr layout" "queryResult env = Inr (good @ ScanError e # rest)"
      "createError env = None" "Format cfg = ''delimited''" "list_all (rowFits layout) good"
  proof -
    from writeRows_scan_error [OF that(4,5), of "writeError env" 0 e rest "[]"]
    obtain spool where "writeRows cfg layout (writeError env) 0 (good @ ScanError e # rest) [] =
        Inr (Some e, spool)" by blast
    with that(1,2,3) show ?thesis by (simp add: extractData_def)
  qed
  then show ?thesis by (simp add: extractData_def)
qed

theorem extractData_reported_outcomes_witness:
  "extractData (exampleConfig ''delimited'' '','') (exampleEnv [] (\<lambda>k. None)) = Inr (None, Some []) \<and>
   (\<exists>spool. extractData (exampleConfig ''delimited'' '','')
      (exampleEnv [Row [Some ''7'', None], ScanError ''ORA-01722: invalid number''] (\<lambda>k. None)) =
      Inr (Some ''ORA-01722: invalid number'', Some spool))"
  using extractData_reported_outcomes
    [of "exampleEnv [] (\<lambda>k. None)" "[]" "exampleConfig ''delimited'' '',''" exampleLayout "[]" "[]" "[]"]
    extractData_reported_outcomes
    [of "exampleEnv [Row [Some ''7'', None], ScanError ''ORA-01722: invalid number''] (\<lambda>k. None)"
        "''ORA-01722: invalid number''" "exampleConfig ''delimited'' '',''" exampleLayout
        "[Row [Some ''7'', None], ScanError ''ORA-01722: invalid number'']" "[Row [Some ''7'', None]]" "[]"]
  by (simp add: exampleConfig_def exampleEnv_def exampleLayout_def rowFits_def)

text \<open>
  C7. Failure if and only if the layout load, the query, a row scan or a write to the
  spool file fails. The code drops the result of \<open>f.WriteString\<close> and never reads
  \<open>rows.Err()\<close>: an extraction whose only write fails returns no error and leaves the
  spool file empty, and so does one whose cursor stopped on an error.
\<close>

theorem extractData_ignores_write_error:
  "extractData (exampleConfig ''delimited'' '','')
     (exampleEnv [Row [Some ''7'', Some ''42'']] (\<lambda>k. Some ''write out/P1_S1.spool: no space left on device'')) =
     Inr (None, Some []) \<and>
   extractData (exampleConfig ''delimited'' '','')
     ((exampleEnv [] (\<lambda>k. None))
        \<lparr> iterationError := Some ''ORA-03113: end-of-file on communication channel'' \<rparr>) =
     Inr (None, Some [])"
  by (simp add: exampleConfig_def exampleEnv_def exampleLayout_def formatRow_def extractData_def)



section \<open>Consolidation\<close>

lemma map_of_writeTo:
  "map_of (writeTo name bytes d) = (map_of d)(name \<mapsto> File (contentOf d name @ bytes))"
  by (simp add: writeTo_def contentOf_def update_conv' split: option.splits node.splits)

lemma copyFiles_frame:
  "x \<noteq> out \<Longrightarrow> x \<notin> set files \<Longrightarrow> map_of (copyFiles io out n i files d) x = map_of d x"
proof (induction files arbitrary: i d)
  case Nil
  then show ?case by simp
next
  case (Cons f files)
  then show ?case
    by (simp add: Let_def map_of_writeTo delete_conv' split: option.splits node.splits)
qed

lemma joinStrings_Cons:
  "joinStrings (a # rest) sep = a @ (if rest = [] then [] else sep @ joinStrings rest sep)"
  by (cases rest) simp_all


lemma copyFiles_noFaults_removed:
  "distinct files \<Longrightarrow> out \<notin> set files \<Longrightarrow> \<forall>f \<in> set files. \<exists>c. map_of d f = Some (File c) \<Longrightarrow>
   f \<in> set files \<Longrightarrow> map_of (copyFiles noFaults out n i files d) f = None"
proof (induction files arbitrary: i d)
  case Nil
  then show ?case by simp
next
  case (Cons g files)
  from Cons.prems obtain c where c: "map_of d g = Some (File c)" by auto
  let ?d3 = "if i < n - 1 then writeTo out [CHR 0x0A] (AList.delete g (writeTo out c d)) else AList.delete g (writeTo out c d)"
  have step: "copyFiles noFaults out n i (g # files) d = copyFiles noFaults out n (Suc i) files ?d3"
    using c by (simp add: noFaults_def Let_def)
  have go: "g \<noteq> out" using Cons.prems by auto
  have same: "map_of ?d3 h = map_of d h" if "h \<in> set files" for h
    using that Cons.prems(1,2) by (auto simp add: map_of_writeTo delete_conv')
  show ?case
  proof (cases "f = g")
    case True
    have "map_of (copyFiles noFaults out n (Suc i) files ?d3) g = map_of ?d3 g"
      using Cons.prems(1) go by (intro copyFiles_frame) auto
    also have "\<dots> = None" using go by (simp add: map_of_writeTo delete_conv')
    finally show ?thesis using step True by simp
  next
    case False
    with Cons.prems have "f \<in> set files" by simp
    moreover have "\<forall>h \<in> set files. \<exists>c. map_of ?d3 h = Some (File c)"
      using same Cons.prems(3) by simp
    ultimately have "map_of (copyFiles noFaults out n (Suc i) files ?d3) f = None"
      using Cons.prems by (intro Cons.IH) auto
    with step show ?thesis by simp
  qed
qed






























text \<open>
  C1. A failure while the merged file is written leaves the previous final file and the
  spool files as they were and shows no partial file under the final name. The code
  creates the final file first and removes each spool file once copied: when the copy of
  \<open>P1_S2.spool\<close> fails, \<open>P1.txt\<close> has lost its previous contents and holds the first spool
  file only, \<open>P1_S1.spool\<close> is gone, and the merge of \<open>P2\<close> has gone on.
\<close>

theorem consolidation_failure_exposes_partial_file:
  "consolidateSpoolFiles (exampleConfig ''fixed'' '','')
     (noFaults \<lparr> copyFails := (\<lambda>f. if f = spoolName ''P1'' ''S2'' then Some 0 else None) \<rparr>)
     [''P1'', ''P2''] exampleDir =
   (None, [(''P1.txt'', File [CHR ''a'', CHR 0x0A]), (spoolName ''P1'' ''S2'', File ''b''),
           (''archive'', Dir), (''P2.txt'', File ''c'')])"
  by code_simp


section \<open>One record for each pair\<close>

lemma sum_list_map_update:
  fixes f :: "'a \<Rightarrow> 'b multiset"
  shows "j < length xs \<Longrightarrow>
         sum_list (map f (xs[j := y])) + f (xs ! j) = sum_list (map f xs) + f y"
proof (induction xs arbitrary: j)
  case Nil
  then show ?case by simp
next
  case (Cons x xs)
  show ?case
  proof (cases j)
    case 0
    then show ?thesis by (simp add: ac_simps)
  next
    case (Suc i)
    with Cons.prems have "i < length xs" by simp
    from Cons.IH [OF this] Suc show ?thesis by (simp add: ac_simps)
  qed
qed

lemma sum_list_map_remove:
  fixes f :: "'a \<Rightarrow> 'b multiset"
  shows "j < length xs \<Longrightarrow>
         sum_list (map f (take j xs @ drop (Suc j) xs)) + f (xs ! j) = sum_list (map f xs)"
proof -
  assume "j < length xs"
  then have "xs = take j xs @ xs ! j # drop (Suc j) xs" by (rule id_take_nth_drop)
  then have "sum_list (map f xs) = sum_list (map f (take j xs @ xs ! j # drop (Suc j) xs))" by simp
  then show ?thesis by (simp add: ac_simps)
qed

lemma workerAt_SomeD:
  "workerAt s j k = Some w \<Longrightarrow>
   j < length (running s) \<and> k < length (workers (running s ! j)) \<and> workers (running s ! j) ! k = w"
  by (simp add: workerAt_def split: if_splits)

lemma runPending_set_worker:
  assumes "k < length (workers r)"
  shows "runPending (r\<lparr> workers := (workers r)[k := w] \<rparr>) + workerPending (runSol r) (workers r ! k) =
         runPending r + workerPending (runSol r) w"
  using sum_list_map_update [OF assms, of "workerPending (runSol r)" w]
  by (simp add: runPending_def ac_simps)

lemma sysPending_set_worker:
  assumes "j < length (running s)" and "k < length (workers (running s ! j))"
  shows "sysPending cfg (setWorker s j k w) + workerPending (runSol (running s ! j)) (workers (running s ! j) ! k) =
         sysPending cfg s + workerPending (runSol (running s ! j)) w"
proof -
  let ?r = "running s ! j"
  let ?r' = "?r\<lparr> workers := (workers ?r)[k := w] \<rparr>"
  have "sum_list (map runPending ((running s)[j := ?r'])) + runPending ?r =
        sum_list (map runPending (running s)) + runPending ?r'"
    using assms(1) by (rule sum_list_map_update)
  then have "sum_list (map runPending ((running s)[j := ?r'])) + runPending ?r
               + workerPending (runSol ?r) (workers ?r ! k) =
             sum_list (map runPending (running s)) + (runPending ?r + workerPending (runSol ?r) w)"
    using runPending_set_worker [OF assms(2), of w] by (simp add: ac_simps)
  then have "sum_list (map runPending ((running s)[j := ?r'])) + workerPending (runSol ?r) (workers ?r ! k) =
             sum_list (map runPending (running s)) + workerPending (runSol ?r) w"
    by (simp add: ac_simps)
  then show ?thesis by (simp add: sysPending_def setWorker_def ac_simps)
qed

lemma setWorker_other_fields:
  "pendingSols (setWorker s j k w) = pendingSols s"
  "procLogCh (setWorker s j k w) = procLogCh s"
  by (simp_all add: setWorker_def)

lemma runPending_all_Exited:
  "toFeed r = [] \<Longrightarrow> list_all (\<lambda>w. w = Exited) (workers r) \<Longrightarrow> runPending r = {#}"
proof -
  have "list_all (\<lambda>w. w = Exited) ws \<Longrightarrow> sum_list (map (workerPending sol) ws) = {#}" for ws sol
    by (induction ws) (simp_all add: workerPending_def)
  then show "toFeed r = [] \<Longrightarrow> list_all (\<lambda>w. w = Exited) (workers r) \<Longrightarrow> runPending r = {#}"
    by (simp add: runPending_def)
qed

lemma runPending_newRun: "runPending (newRun cfg sol) = mset (map (Pair sol) (Procedures cfg))"
proof -
  have "sum_list (map (workerPending sol) (replicate n Waiting)) = {#}" for n
    by (induction n) (simp_all add: workerPending_def)
  then show ?thesis by (simp add: runPending_def newRun_def)
qed

lemma accounted_applyAction:
  assumes "applyAction cfg conc a s = Some s'"
  shows "accounted cfg s' = accounted cfg s"
proof (cases a)
  case StartSol
  with assms obtain sol rest where p: "pendingSols s = sol # rest"
    and s': "s' = s\<lparr> pendingSols := rest, running := running s @ [newRun cfg sol] \<rparr>"
    by (auto split: list.splits if_splits)
  show ?thesis
    unfolding s' by (simp add: accounted_def sysPending_def p runPending_newRun ac_simps)
next
  case (Feed j k)
  with assms obtain proc rest where w: "workerAt s j k = Some Waiting"
    and f: "toFeed (running s ! j) = proc # rest"
    and s': "s' = setWorker (s\<lparr> running := (running s)[j := (running s ! j)\<lparr> toFeed := rest \<rparr>] \<rparr>) j k (Got proc)"
    by (auto split: option.splits worker.splits list.splits)
  from workerAt_SomeD [OF w] have j: "j < length (running s)"
    and k: "k < length (workers (running s ! j))" and wk: "workers (running s ! j) ! k = Waiting"
    by simp_all
  let ?r = "running s ! j"
  let ?s1 = "s\<lparr> running := (running s)[j := ?r\<lparr> toFeed := rest \<rparr>] \<rparr>"
  have 1: "sysPending cfg ?s1 + {#(runSol ?r, proc)#} = sysPending cfg s"
    using sum_list_map_update [OF j, of runPending "?r\<lparr> toFeed := rest \<rparr>"] f
    by (simp add: sysPending_def runPending_def ac_simps)
  have 2: "sysPending cfg s' + workerPending (runSol ?r) Waiting =
           sysPending cfg ?s1 + workerPending (runSol ?r) (Got proc)"
    unfolding s' using sysPending_set_worker [of j ?s1 k cfg "Got proc"] j k wk by simp
  from 1 2 have "sysPending cfg s' = sysPending cfg s" by (simp add: workerPending_def)
  then show ?thesis unfolding accounted_def s' by (simp add: setWorker_other_fields)
next
  case (CallAndLog j k start end' err)
  with assms obtain proc where w: "workerAt s j k = Some (Got proc)"
    and s': "s' = setWorker (s\<lparr> procLogCh := procLogCh s @ [mkProcLog (runSol (running s ! j)) proc start end' err] \<rparr>)
                    j k (Logged (mkProcLog (runSol (running s ! j)) proc start end' err))"
    by (auto simp add: Let_def split: option.splits worker.splits)
  from workerAt_SomeD [OF w] have j: "j < length (running s)"
    and k: "k < length (workers (running s ! j))" and wk: "workers (running s ! j) ! k = Got proc"
    by simp_all
  let ?r = "running s ! j"
  let ?plog = "mkProcLog (runSol ?r) proc start end' err"
  let ?s1 = "s\<lparr> procLogCh := procLogCh s @ [?plog] \<rparr>"
  have "sysPending cfg s' + workerPending (runSol ?r) (Got proc) =
        sysPending cfg ?s1 + workerPending (runSol ?r) (Logged ?plog)"
    unfolding s' using sysPending_set_worker [of j ?s1 k cfg "Logged ?plog"] j k wk by simp
  then have "sysPending cfg s' + {#(runSol ?r, proc)#} = sysPending cfg s"
    by (simp add: workerPending_def sysPending_def)
  moreover have "logKey ?plog = (runSol ?r, proc)" by (simp add: logKey_def mkProcLog_def)
  ultimately show ?thesis
    unfolding accounted_def s' by (simp add: setWorker_other_fields ac_simps)
next
  case (UpdateSummary j k)
  with assms obtain plog where w: "workerAt s j k = Some (Logged plog)"
    and s': "s' = setWorker (s\<lparr> procSummary := updateSummary (procSummary s) (Procedure plog)
                      (StartTime plog) (EndTime plog) (Status plog) \<rparr>) j k Waiting"
    by (auto split: option.splits worker.splits)
  from workerAt_SomeD [OF w] have j: "j < length (running s)"
    and k: "k < length (workers (running s ! j))" and wk: "workers (running s ! j) ! k = Logged plog"
    by simp_all
  let ?r = "running s ! j"
  let ?s1 = "s\<lparr> procSummary := updateSummary (procSummary s) (Procedure plog)
                      (StartTime plog) (EndTime plog) (Status plog) \<rparr>"
  have "sysPending cfg s' + workerPending (runSol ?r) (Logged plog) =
        sysPending cfg ?s1 + workerPending (runSol ?r) Waiting"
    unfolding s' using sysPending_set_worker [of j ?s1 k cfg Waiting] j k wk by simp
  then have "sysPending cfg s' = sysPending cfg s"
    by (simp add: workerPending_def sysPending_def)
  then show ?thesis unfolding accounted_def s' by (simp add: setWorker_other_fields)
next
  case (CloseProcCh j)
  with assms have j: "j < length (running s)"
    and s': "s' = s\<lparr> running := (running s)[j := (running s ! j)\<lparr> procChClosed := True \<rparr>] \<rparr>"
    by (auto split: if_splits)
  have "sysPending cfg s' = sysPending cfg s"
    unfolding s' using sum_list_map_update [OF j, of runPending "(running s ! j)\<lparr> procChClosed := True \<rparr>"]
    by (simp add: sysPending_def runPending_def)
  then show ?thesis unfolding accounted_def s' by simp
next
  case (ExitWorker j k)
  with assms have w: "workerAt s j k = Some Waiting" and s': "s' = setWorker s j k Exited"
    by (auto split: option.splits worker.splits if_splits)
  from workerAt_SomeD [OF w] have j: "j < length (running s)"
    and k: "k < length (workers (running s ! j))" and wk: "workers (running s ! j) ! k = Waiting"
    by simp_all
  have "sysPending cfg s' + workerPending (runSol (running s ! j)) Waiting =
        sysPending cfg s + workerPending (runSol (running s ! j)) Exited"
    unfolding s' using sysPending_set_worker [of j s k cfg Exited] j k wk by simp
  then have "sysPending cfg s' = sysPending cfg s" by (simp add: workerPending_def)
  then show ?thesis unfolding accounted_def s' by (simp add: setWorker_other_fields)
next
  case (ReturnSol j)
  with assms have j: "j < length (running s)" and f: "toFeed (running s ! j) = []"
    and e: "list_all (\<lambda>w. w = Exited) (workers (running s ! j))"
    and s': "s' = s\<lparr> running := take j (running s) @ drop (Suc j) (running s),
                      completed := Suc (completed s) \<rparr>"
    by (auto split: if_splits)
  have "sysPending cfg s' = sysPending cfg s"
    unfolding s' using sum_list_map_remove [OF j, of runPending] runPending_all_Exited [OF f e]
    by (simp add: sysPending_def)
  then show ?thesis unfolding accounted_def s' by simp
qed

lemma accounted_execute:
  "execute cfg conc acts s = Some s' \<Longrightarrow> accounted cfg s' = accounted cfg s"
proof (induction acts arbitrary: s)
  case Nil
  then show ?case by simp
next
  case (Cons a acts)
  then obtain s1 where 1: "applyAction cfg conc a s = Some s1"
    and 2: "execute cfg conc acts s1 = Some s'"
    by (auto split: option.splits)
  from Cons.IH [OF 2] accounted_applyAction [OF 1] show ?case by simp
qed

lemma accounted_initial: "accounted cfg (initial sols) = mset (List.product sols (Procedures cfg))"
  by (simp add: accounted_def sysPending_def initial_def)

lemma accounted_finished: "finished s \<Longrightarrow> accounted cfg s = mset (map logKey (procLogCh s))"
  by (simp add: accounted_def sysPending_def finished_def)

lemma count_logKey:
  "count (mset (map logKey logs)) (sol, proc) =
   length (filter (\<lambda>l. SolID l = sol \<and> Procedure l = proc) logs)"
  by (induction logs) (auto simp add: logKey_def)

text \<open>
  C4. In every state in which the run is complete, whatever the interleaving that led to
  it, the records sent on the log channel are, as a multiset of (SOL, procedure) pairs,
  the cross product of the SOL list and the procedure list; with distinct SOLs and
  distinct procedures every pair has exactly one record.
\<close>

theorem every_pair_logged_exactly_once:
  assumes "execute cfg conc acts (initial sols) = Some s" and "finished s"
  shows "mset (map logKey (procLogCh s)) = mset (List.product sols (Procedures cfg)) \<and>
         (distinct sols \<and> distinct (Procedures cfg) \<longrightarrow>
            (\<forall>sol \<in> set sols. \<forall>proc \<in> set (Procedures cfg).
               length (filter (\<lambda>l. SolID l = sol \<and> Procedure l = proc) (procLogCh s)) = 1) \<and>
            length (procLogCh s) = length sols * length (Procedures cfg))"
proof -
  have eq: "mset (map logKey (procLogCh s)) = mset (List.product sols (Procedures cfg))"
    using accounted_execute [OF assms(1)] accounted_finished [OF assms(2), of cfg]
    by (simp add: accounted_initial)
  have len: "length (procLogCh s) = length sols * length (Procedures cfg)"
  proof -
    from eq have "size (mset (map logKey (procLogCh s))) = size (mset (List.product sols (Procedures cfg)))"
      by simp
    then show ?thesis by simp
  qed
  have one: "length (filter (\<lambda>l. SolID l = sol \<and> Procedure l = proc) (procLogCh s)) = 1"
    if "distinct sols" "distinct (Procedures cfg)" "sol \<in> set sols" "proc \<in> set (Procedures cfg)"
    for sol proc
  proof -
    from that(1,2) have "distinct (List.product sols (Procedures cfg))" by (rule distinct_product)
    moreover from that(3,4) have "(sol, proc) \<in> set (List.product sols (Procedures cfg))" by simp
    ultimately have "count (mset (List.product sols (Procedures cfg))) (sol, proc) = 1"
      by (simp add: distinct_count_atmost_1)
    with eq show ?thesis by (simp add: count_logKey [symmetric])
  qed
  from eq len one show ?thesis by blast
qed

theorem every_pair_logged_exactly_once_witness:
  "execute (exampleConfig ''fixed'' '','') 2 exampleSchedule (initial [''S1'', ''S2'']) \<noteq> None \<and>
   finished (the (execute (exampleConfig ''fixed'' '','') 2 exampleSchedule (initial [''S1'', ''S2'']))) \<and>
   mset (map logKey (procLogCh (the (execute (exampleConfig ''fixed'' '','') 2 exampleSchedule
          (initial [''S1'', ''S2''])))))
     = {#(''S1'', ''P1''), (''S1'', ''P2''), (''S2'', ''P1''), (''S2'', ''P2'')#}"
proof -
  let ?run = "execute (exampleConfig ''fixed'' '','') 2 exampleSchedule (initial [''S1'', ''S2''])"
  have "case ?run of None \<Rightarrow> False | Some s \<Rightarrow> finished s" by code_simp
  then obtain s where 1: "?run = Some s" and 2: "finished s"
    by (cases ?run) simp_all
  have 3: "List.product [''S1'', ''S2''] (Procedures (exampleConfig ''fixed'' '','')) =
           [(''S1'', ''P1''), (''S1'', ''P2''), (''S2'', ''P1''), (''S2'', ''P2'')]"
    by (simp add: exampleConfig_def)
  from every_pair_logged_exactly_once [OF 1 2] 1 2 show ?thesis
    unfolding 3 by (simp del: map_map)
qed


section \<open>The run completes\<close>

lemma sum_list_map_update_nat:
  fixes f :: "'a \<Rightarrow> nat"
  shows "j < length xs \<Longrightarrow>
         sum_list (map f (xs[j := y])) + f (xs ! j) = sum_list (map f xs) + f y"
proof (induction xs arbitrary: j)
  case Nil
  then show ?case by simp
next
  case (Cons x xs)
  show ?case
  proof (cases j)
    case 0
    then show ?thesis by simp
  next
    case (Suc i)
    with Cons.prems have "i < length xs" by simp
    from Cons.IH [OF this] Suc show ?thesis by simp
  qed
qed

lemma sum_list_map_remove_nat:
  fixes f :: "'a \<Rightarrow> nat"
  shows "j < length xs \<Longrightarrow>
         sum_list (map f (take j xs @ drop (Suc j) xs)) + f (xs ! j) = sum_list (map f xs)"
proof -
  assume "j < length xs"
  then have "xs = take j xs @ xs ! j # drop (Suc j) xs" by (rule id_take_nth_drop)
  then have "sum_list (map f xs) = sum_list (map f (take j xs @ xs ! j # drop (Suc j) xs))" by simp
  then show ?thesis by simp
qed

lemma runCost_newRun: "runCost (newRun cfg sol) = 3 * length (Procedures cfg) + numWorkers + 2"
proof -
  have "sum_list (map workerCost (replicate n Waiting)) = n" for n
    by (induction n) (simp_all add: workerCost_def)
  then show ?thesis by (simp add: runCost_def newRun_def)
qed

lemma stepsLeft_set_run:
  assumes "j < length (running s)" and "runCost r' < runCost (running s ! j)"
    and "pendingSols s' = pendingSols s" and "running s' = (running s)[j := r']"
  shows "stepsLeft cfg s' < stepsLeft cfg s"
  using sum_list_map_update_nat [OF assms(1), of runCost r'] assms(2,3,4)
  by (simp add: stepsLeft_def)

lemma runCost_set_worker:
  assumes "k < length (workers r)" and "workerCost w < workerCost (workers r ! k)"
  shows "runCost (r\<lparr> workers := (workers r)[k := w] \<rparr>) < runCost r"
  using sum_list_map_update_nat [OF assms(1), of workerCost w] assms(2)
  by (simp add: runCost_def)

lemma stepsLeft_setWorker:
  assumes "workerAt s j k = Some w0" and "workerCost w < workerCost w0"
  shows "stepsLeft cfg (setWorker s j k w) < stepsLeft cfg s"
proof -
  from workerAt_SomeD [OF assms(1)] have j: "j < length (running s)"
    and k: "k < length (workers (running s ! j))" and w0: "workers (running s ! j) ! k = w0"
    by simp_all
  show ?thesis
    using j runCost_set_worker [OF k, of w] assms(2) w0
    by (intro stepsLeft_set_run [of j s "(running s ! j)\<lparr> workers := (workers (running s ! j))[k := w] \<rparr>"])
       (simp_all add: setWorker_def)
qed

lemma stepsLeft_applyAction:
  assumes "applyAction cfg conc a s = Some s'"
  shows "stepsLeft cfg s' < stepsLeft cfg s"
proof (cases a)
  case StartSol
  with assms obtain sol rest where p: "pendingSols s = sol # rest"
    and s': "s' = s\<lparr> pendingSols := rest, running := running s @ [newRun cfg sol] \<rparr>"
    by (auto split: list.splits if_splits)
  show ?thesis unfolding s' by (simp add: stepsLeft_def p runCost_newRun)
next
  case (Feed j k)
  with assms obtain proc rest where w: "workerAt s j k = Some Waiting"
    and f: "toFeed (running s ! j) = proc # rest"
    and s': "s' = setWorker (s\<lparr> running := (running s)[j := (running s ! j)\<lparr> toFeed := rest \<rparr>] \<rparr>) j k (Got proc)"
    by (auto split: option.splits worker.splits list.splits)
  from workerAt_SomeD [OF w] have j: "j < length (running s)"
    and k: "k < length (workers (running s ! j))" and wk: "workers (running s ! j) ! k = Waiting"
    by simp_all
  let ?r = "running s ! j"
  let ?r' = "?r\<lparr> toFeed := rest, workers := (workers ?r)[k := Got proc] \<rparr>"
  have "sum_list (map workerCost ((workers ?r)[k := Got proc])) + workerCost Waiting =
        sum_list (map workerCost (workers ?r)) + workerCost (Got proc)"
    using sum_list_map_update_nat [OF k, of workerCost "Got proc"] wk by simp
  then have "runCost ?r' < runCost ?r"
    using f by (simp add: runCost_def workerCost_def)
  moreover have "running s' = (running s)[j := ?r']"
    unfolding s' using j by (simp add: setWorker_def)
  moreover have "pendingSols s' = pendingSols s" unfolding s' by (simp add: setWorker_def)
  ultimately show ?thesis using j by (intro stepsLeft_set_run [of j s ?r']) simp_all
next
  case (CallAndLog j k start end' err)
  with assms obtain proc where w: "workerAt s j k = Some (Got proc)"
    and s': "s' = setWorker (s\<lparr> procLogCh := procLogCh s @ [mkProcLog (runSol (running s ! j)) proc start end' err] \<rparr>)
                    j k (Logged (mkProcLog (runSol (running s ! j)) proc start end' err))"
    by (auto simp add: Let_def split: option.splits worker.splits)
  let ?s1 = "s\<lparr> procLogCh := procLogCh s @ [mkProcLog (runSol (running s ! j)) proc start end' err] \<rparr>"
  have "workerAt ?s1 j k = Some (Got proc)" using w by (simp add: workerAt_def split: if_splits)
  from stepsLeft_setWorker [OF this, of _ cfg] show ?thesis
    unfolding s' by (simp add: workerCost_def stepsLeft_def)
next
  case (UpdateSummary j k)
  with assms obtain plog where w: "workerAt s j k = Some (Logged plog)"
    and s': "s' = setWorker (s\<lparr> procSummary := updateSummary (procSummary s) (Procedure plog)
                      (StartTime plog) (EndTime plog) (Status plog) \<rparr>) j k Waiting"
    by (auto split: option.splits worker.splits)
  let ?s1 = "s\<lparr> procSummary := updateSummary (procSummary s) (Procedure plog)
                      (StartTime plog) (EndTime plog) (Status plog) \<rparr>"
  have "workerAt ?s1 j k = Some (Logged plog)" using w by (simp add: workerAt_def split: if_splits)
  from stepsLeft_setWorker [OF this, of Waiting cfg] show ?thesis
    unfolding s' by (simp add: workerCost_def stepsLeft_def)
next
  case (CloseProcCh j)
  with assms have j: "j < length (running s)" and c: "\<not> procChClosed (running s ! j)"
    and s': "s' = s\<lparr> running := (running s)[j := (running s ! j)\<lparr> procChClosed := True \<rparr>] \<rparr>"
    by (auto split: if_splits)
  show ?thesis
    using j c unfolding s'
    by (intro stepsLeft_set_run [of j s "(running s ! j)\<lparr> procChClosed := True \<rparr>"])
       (simp_all add: runCost_def)
next
  case (ExitWorker j k)
  with assms have w: "workerAt s j k = Some Waiting" and s': "s' = setWorker s j k Exited"
    by (auto split: option.splits worker.splits if_splits)
  from stepsLeft_setWorker [OF w, of Exited cfg] show ?thesis
    unfolding s' by (simp add: workerCost_def)
next
  case (ReturnSol j)
  with assms have j: "j < length (running s)"
    and s': "s' = s\<lparr> running := take j (running s) @ drop (Suc j) (running s),
                      completed := Suc (completed s) \<rparr>"
    by (auto split: if_splits)
  have "0 < runCost (running s ! j)" by (simp add: runCost_def)
  then show ?thesis
    unfolding s' using sum_list_map_remove_nat [OF j, of runCost] by (simp add: stepsLeft_def)
qed

lemma list_all_update:
  "list_all P xs \<Longrightarrow> P y \<Longrightarrow> list_all P (xs[j := y])"
  by (induction xs arbitrary: j) (auto split: nat.splits)

lemma list_all_nth: "list_all P xs \<Longrightarrow> j < length xs \<Longrightarrow> P (xs ! j)"
  by (simp add: list_all_length)

lemma wellFormedRun_set_worker:
  assumes "wellFormedRun r" and "w \<noteq> Exited \<or> procChClosed r"
  shows "wellFormedRun (r\<lparr> workers := (workers r)[k := w] \<rparr>)"
proof -
  have "set ((workers r)[k := w]) \<subseteq> insert w (set (workers r))"
    by (rule set_update_subset_insert)
  with assms show ?thesis by (auto simp add: wellFormedRun_def)
qed

lemma wellFormed_setWorker:
  assumes "wellFormed s" and "workerAt s j k = Some w0" and "w \<noteq> Exited \<or> procChClosed (running s ! j)"
  shows "wellFormed (setWorker s j k w)"
proof -
  from workerAt_SomeD [OF assms(2)] have j: "j < length (running s)" by simp
  from assms(1) j have "wellFormedRun (running s ! j)"
    unfolding wellFormed_def by (rule list_all_nth)
  from wellFormedRun_set_worker [OF this assms(3), of k] assms(1) show ?thesis
    by (simp add: wellFormed_def setWorker_def list_all_update)
qed

lemma wellFormedRun_newRun: "wellFormedRun (newRun cfg sol)"
  by (simp add: wellFormedRun_def newRun_def)

lemma wellFormed_applyAction:
  assumes "applyAction cfg conc a s = Some s'" and "wellFormed s"
  shows "wellFormed s'"
proof (cases a)
  case StartSol
  with assms show ?thesis
    by (auto simp add: wellFormed_def wellFormedRun_newRun split: list.splits if_splits)
next
  case (Feed j k)
  with assms(1) obtain proc rest where w: "workerAt s j k = Some Waiting"
    and f: "toFeed (running s ! j) = proc # rest"
    and s': "s' = setWorker (s\<lparr> running := (running s)[j := (running s ! j)\<lparr> toFeed := rest \<rparr>] \<rparr>) j k (Got proc)"
    by (auto split: option.splits worker.splits list.splits)
  from workerAt_SomeD [OF w] have j: "j < length (running s)" by simp
  let ?s1 = "s\<lparr> running := (running s)[j := (running s ! j)\<lparr> toFeed := rest \<rparr>] \<rparr>"
  from assms(2) j have "wellFormedRun (running s ! j)"
    unfolding wellFormed_def by (rule list_all_nth)
  then have "wellFormedRun ((running s ! j)\<lparr> toFeed := rest \<rparr>)"
    using f by (auto simp add: wellFormedRun_def)
  with assms(2) have 1: "wellFormed ?s1" by (simp add: wellFormed_def list_all_update)
  have 2: "workerAt ?s1 j k = Some Waiting"
    using w j by (simp add: workerAt_def split: if_splits)
  show ?thesis unfolding s' by (rule wellFormed_setWorker [OF 1 2]) simp
next
  case (CallAndLog j k start end' err)
  with assms(1) obtain proc where w: "workerAt s j k = Some (Got proc)"
    and s': "s' = setWorker (s\<lparr> procLogCh := procLogCh s @ [mkProcLog (runSol (running s ! j)) proc start end' err] \<rparr>)
                    j k (Logged (mkProcLog (runSol (running s ! j)) proc start end' err))"
    by (auto simp add: Let_def split: option.splits worker.splits)
  let ?s1 = "s\<lparr> procLogCh := procLogCh s @ [mkProcLog (runSol (running s ! j)) proc start end' err] \<rparr>"
  have 1: "wellFormed ?s1" using assms(2) by (simp add: wellFormed_def)
  have 2: "workerAt ?s1 j k = Some (Got proc)" using w by (simp add: workerAt_def split: if_splits)
  show ?thesis unfolding s' by (rule wellFormed_setWorker [OF 1 2]) simp
next
  case (UpdateSummary j k)
  with assms(1) obtain plog where w: "workerAt s j k = Some (Logged plog)"
    and s': "s' = setWorker (s\<lparr> procSummary := updateSummary (procSummary s) (Procedure plog)
                      (StartTime plog) (EndTime plog) (Status plog) \<rparr>) j k Waiting"
    by (auto split: option.splits worker.splits)
  let ?s1 = "s\<lparr> procSummary := updateSummary (procSummary s) (Procedure plog)
                      (StartTime plog) (EndTime plog) (Status plog) \<rparr>"
  have 1: "wellFormed ?s1" using assms(2) by (simp add: wellFormed_def)
  have 2: "workerAt ?s1 j k = Some (Logged plog)" using w by (simp add: workerAt_def split: if_splits)
  show ?thesis unfolding s' by (rule wellFormed_setWorker [OF 1 2]) simp
next
  case (CloseProcCh j)
  with assms(1) have j: "j < length (running s)" and f: "toFeed (running s ! j) = []"
    and s': "s' = s\<lparr> running := (running s)[j := (running s ! j)\<lparr> procChClosed := True \<rparr>] \<rparr>"
    by (auto split: if_splits)
  from assms(2) j have "wellFormedRun (running s ! j)"
    unfolding wellFormed_def by (rule list_all_nth)
  then have "wellFormedRun ((running s ! j)\<lparr> procChClosed := True \<rparr>)"
    using f by (simp add: wellFormedRun_def)
  with assms(2) show ?thesis unfolding s' by (simp add: wellFormed_def list_all_update)
next
  case (ExitWorker j k)
  with assms(1) have w: "workerAt s j k = Some Waiting" and c: "procChClosed (running s ! j)"
    and s': "s' = setWorker s j k Exited"
    by (auto split: option.splits worker.splits if_splits)
  show ?thesis unfolding s' using c by (intro wellFormed_setWorker [OF assms(2) w]) simp
next
  case (ReturnSol j)
  with assms(1) have s': "s' = s\<lparr> running := take j (running s) @ drop (Suc j) (running s),
                      completed := Suc (completed s) \<rparr>"
    by (auto split: if_splits)
  have "set (take j (running s) @ drop (Suc j) (running s)) \<subseteq> set (running s)"
    by (auto dest: in_set_takeD in_set_dropD)
  with assms(2) show ?thesis unfolding s' by (auto simp add: wellFormed_def list_all_iff)
qed

lemma progress_applyAction:
  assumes "wellFormed s" and "\<not> finished s" and "0 < conc"
  shows "\<exists>a s'. applyAction cfg conc a s = Some s'"
proof (cases "running s")
  case Nil
  with assms(2) obtain sol rest where "pendingSols s = sol # rest"
    by (cases "pendingSols s") (auto simp add: finished_def)
  with Nil assms(3) have "applyAction cfg conc StartSol s =
      Some (s\<lparr> pendingSols := rest, running := running s @ [newRun cfg sol] \<rparr>)" by simp
  then show ?thesis by blast
next
  case (Cons r rs)
  then have r: "running s ! 0 = r" and j: "0 < length (running s)" by simp_all
  from assms(1) Cons have wf: "wellFormedRun r" by (simp add: wellFormed_def)
  have at: "workerAt s 0 k = Some (workers r ! k)" if "k < length (workers r)" for k
    using that r j by (simp add: workerAt_def)
  consider (got) k proc where "k < length (workers r)" "workers r ! k = Got proc"
    | (logged) k plog where "k < length (workers r)" "workers r ! k = Logged plog"
    | (idle) "\<forall>w \<in> set (workers r). w = Waiting \<or> w = Exited"
  proof (cases "\<forall>w \<in> set (workers r). w = Waiting \<or> w = Exited")
    case True
    then show ?thesis by (rule idle)
  next
    case False
    then obtain w where w: "w \<in> set (workers r)" "w \<noteq> Waiting" "w \<noteq> Exited" by blast
    then obtain k where k: "k < length (workers r)" "workers r ! k = w"
      by (auto simp add: in_set_conv_nth)
    from w(2,3) k show ?thesis by (cases w) (auto intro: got logged)
  qed
  then show ?thesis
  proof cases
    case got
    with at [OF got(1)] have "applyAction cfg conc (CallAndLog 0 k 0 0 None) s \<noteq> None"
      by (simp add: Let_def)
    then show ?thesis by blast
  next
    case logged
    with at [OF logged(1)] have "applyAction cfg conc (UpdateSummary 0 k) s \<noteq> None" by simp
    then show ?thesis by blast
  next
    case idle
    show ?thesis
    proof (cases "procChClosed r")
      case False
      show ?thesis
      proof (cases "toFeed r")
        case Nil
        with False r j have "applyAction cfg conc (CloseProcCh 0) s \<noteq> None" by simp
        then show ?thesis by blast
      next
        case (Cons proc rest)
        from wf have len: "0 < length (workers r)" by (simp add: wellFormedRun_def numWorkers_def)
        from wf False have "Exited \<notin> set (workers r)" by (simp add: wellFormedRun_def)
        with idle len have "workers r ! 0 = Waiting" by (metis nth_mem)
        with at [OF len] Cons r have "applyAction cfg conc (Feed 0 0) s \<noteq> None" by simp
        then show ?thesis by blast
      qed
    next
      case True
      with wf have f: "toFeed r = []" by (simp add: wellFormedRun_def)
      show ?thesis
      proof (cases "Waiting \<in> set (workers r)")
        case True
        then obtain k where k: "k < length (workers r)" "workers r ! k = Waiting"
          by (auto simp add: in_set_conv_nth)
        with at [OF k(1)] \<open>procChClosed r\<close> r
        have "applyAction cfg conc (ExitWorker 0 k) s \<noteq> None" by simp
        then show ?thesis by blast
      next
        case False
        with idle have "list_all (\<lambda>w. w = Exited) (workers r)" by (auto simp add: list_all_iff)
        with f \<open>procChClosed r\<close> r j
        have "applyAction cfg conc (ReturnSol 0) s \<noteq> None" by simp
        then show ?thesis by blast
      qed
    qed
  qed
qed

lemma execute_append:
  "execute cfg conc (as @ bs) s =
     (case execute cfg conc as s of None \<Rightarrow> None | Some s1 \<Rightarrow> execute cfg conc bs s1)"
  by (induction as arbitrary: s) (simp_all split: option.splits)

lemma wellFormed_execute:
  "execute cfg conc acts s = Some s' \<Longrightarrow> wellFormed s \<Longrightarrow> wellFormed s'"
proof (induction acts arbitrary: s)
  case Nil
  then show ?case by simp
next
  case (Cons a acts)
  then obtain s1 where 1: "applyAction cfg conc a s = Some s1"
    and 2: "execute cfg conc acts s1 = Some s'"
    by (auto split: option.splits)
  from wellFormed_applyAction [OF 1 Cons.prems(2)] Cons.IH [OF 2] show ?case by simp
qed

lemma stepsLeft_execute:
  "execute cfg conc acts s = Some s' \<Longrightarrow> length acts + stepsLeft cfg s' \<le> stepsLeft cfg s"
proof (induction acts arbitrary: s)
  case Nil
  then show ?case by simp
next
  case (Cons a acts)
  then obtain s1 where 1: "applyAction cfg conc a s = Some s1"
    and 2: "execute cfg conc acts s1 = Some s'"
    by (auto split: option.splits)
  from stepsLeft_applyAction [OF 1] Cons.IH [OF 2] show ?case by simp
qed

lemma can_complete:
  assumes "0 < conc"
  shows "wellFormed s \<Longrightarrow> \<exists>acts s'. execute cfg conc acts s = Some s' \<and> finished s'"
proof (induction "stepsLeft cfg s" arbitrary: s rule: less_induct)
  case less
  show ?case
  proof (cases "finished s")
    case True
    then have "execute cfg conc [] s = Some s \<and> finished s" by simp
    then show ?thesis by blast
  next
    case False
    from progress_applyAction [OF less.prems False assms, of cfg]
    obtain a s1 where 1: "applyAction cfg conc a s = Some s1" by blast
    from wellFormed_applyAction [OF 1 less.prems] have 2: "wellFormed s1" .
    from stepsLeft_applyAction [OF 1] have 3: "stepsLeft cfg s1 < stepsLeft cfg s" .
    from less.hyps [OF 3 2] obtain acts s' where "execute cfg conc acts s1 = Some s'" "finished s'"
      by blast
    with 1 have "execute cfg conc (a # acts) s = Some s' \<and> finished s'" by simp
    then show ?thesis by blast
  qed
qed

lemma wellFormed_initial: "wellFormed (initial sols)"
  by (simp add: wellFormed_def initial_def)

lemma stepsLeft_initial:
  "stepsLeft cfg (initial sols) = length sols * (3 * length (Procedures cfg) + numWorkers + 3)"
  by (simp add: stepsLeft_def initial_def)

text \<open>
  With a concurrency of at least one the run neither blocks nor goes on for ever: every
  schedule from the initial state can be extended to one that completes the run, and no
  schedule has more steps than the bound of the initial state.
\<close>

theorem run_can_always_complete:
  assumes "0 < conc" and "execute cfg conc acts (initial sols) = Some s"
  shows "(\<exists>more s'. execute cfg conc (acts @ more) (initial sols) = Some s' \<and> finished s') \<and>
         length acts \<le> length sols * (3 * length (Procedures cfg) + numWorkers + 3)"
proof -
  from wellFormed_execute [OF assms(2) wellFormed_initial] have "wellFormed s" .
  from can_complete [OF assms(1) this, of cfg]
  obtain more s' where "execute cfg conc more s = Some s'" "finished s'" by blast
  with assms(2) have "execute cfg conc (acts @ more) (initial sols) = Some s' \<and> finished s'"
    by (simp add: execute_append)
  moreover from stepsLeft_execute [OF assms(2)]
  have "length acts \<le> length sols * (3 * length (Procedures cfg) + numWorkers + 3)"
    by (simp add: stepsLeft_initial)
  ultimately show ?thesis by blast
qed

theorem run_can_always_complete_witness:
  "\<exists>more s'. execute (exampleConfig ''fixed'' '','') 1 ([StartSol, Feed 0 2] @ more) (initial [''S1'', ''S2'']) = Some s'
      \<and> finished s'"
proof -
  let ?run = "execute (exampleConfig ''fixed'' '','') 1 [StartSol, Feed 0 2] (initial [''S1'', ''S2''])"
  have "case ?run of None \<Rightarrow> False | Some s \<Rightarrow> True" by code_simp
  then obtain s where 1: "?run = Some s" by (cases ?run) simp_all
  have 0: "0 < (1::nat)" by simp
  from run_can_always_complete [OF 0 1] show ?thesis by blast
qed

end
